theory Spec2Isabelle
  imports Main "HOL-Library.Word" "HOL-Library.Signed_Division"
begin

unbundle bit_operations_syntax

section \<open>Data model of cache.h\<close>

text \<open>
  The C types of \<^verbatim>\<open>cache.h\<close>. A C \<^verbatim>\<open>int\<close> is an \<open>int\<close> of HOL together with the
  range check written out wherever the code does arithmetic on it: signed overflow, an
  out-of-range array access, a division by zero, a shift by a negative or too large
  amount and an out-of-range conversion from \<^verbatim>\<open>double\<close> are undefined behaviour in C
  and are the \<open>fault\<close> values of the model.
  A host address (\<^verbatim>\<open>void*\<close>, read as \<^verbatim>\<open>intptr_t\<close>), a \<^verbatim>\<open>cl_mem\<close> handle and a
  \<^verbatim>\<open>cl_mem_flags\<close> bit field are 64-bit words.
\<close>

datatype fault = OutOfBounds | SignedOverflow | DivisionByZero | FloatToIntRange | ShiftRange

datatype CacheConfiguration_t = direct_mapped | two_way | four_way | fully_associative

datatype ReplacementPolicy_t = random_RP | fifo_RP | lru_RP | mru_RP | lfu_RP | mfu_RP

type_synonym addr = "64 word"
type_synonym cl_mem = "64 word"
type_synonym cl_mem_flags = "64 word"
type_synonym cl_int = int

record MetaData_t =
  nodeId :: int
  accessedOrder :: int

text \<open>
  \<open>deviceData\<close> is \<open>None\<close> as long as the field has never been assigned: \<^verbatim>\<open>CreateCache\<close>
  leaves it as \<^verbatim>\<open>malloc\<close> returned it.
\<close>

record CacheLine_t =
  valid :: bool
  tag :: addr
  metaData :: MetaData_t
  deviceData :: "cl_mem option"

record Cache_t =
  memCopies :: int
  ReadTransfers :: int
  WriteTransfers :: int
  tagSize :: int
  dataSize :: int
  indexBitMask :: int
  addressBitShift :: int
  numberOfLinesPerSet :: int
  numberOfSets :: int
  config :: CacheConfiguration_t
  cacheLine :: "CacheLine_t list list"
  replacementLine :: "int list"
  policy :: ReplacementPolicy_t

definition INT_MAX :: int where
  "INT_MAX = 2147483647"

definition INT_MIN :: int where
  "INT_MIN = - 2147483648"

definition NULL :: addr where
  "NULL = 0"

text \<open>The two flag bits of \<^verbatim>\<open>CL/cl.h\<close> that the callers of the cache use.\<close>

definition CL_MEM_READ_WRITE :: cl_mem_flags where
  "CL_MEM_READ_WRITE = 1"

definition CL_MEM_COPY_HOST_PTR :: cl_mem_flags where
  "CL_MEM_COPY_HOST_PTR = 32"

definition CL_SUCCESS :: cl_int where
  "CL_SUCCESS = 0"

section \<open>Arithmetic of C\<close>

text \<open>\<^verbatim>\<open>x++\<close> and \<^verbatim>\<open>x += 1\<close> on an \<^verbatim>\<open>int\<close>.\<close>

definition incr :: "int \<Rightarrow> fault + int" where
  "incr x = (if x < INT_MAX then Inr (x + 1) else Inl SignedOverflow)"

text \<open>\<^verbatim>\<open>a % b\<close> on \<^verbatim>\<open>int\<close>: the remainder of the division that truncates towards zero.\<close>

definition c_rem :: "int \<Rightarrow> int \<Rightarrow> fault + int" where
  "c_rem a b = (if b = 0 then Inl DivisionByZero else Inr (a smod b))"

text \<open>
  \<^verbatim>\<open>(int)pow(2, e)\<close>: a power of two is exact in a \<^verbatim>\<open>double\<close>; the conversion to
  \<^verbatim>\<open>int\<close> truncates, and is undefined from \<open>2 ^ 31\<close> on.
\<close>

definition pow2_int :: "int \<Rightarrow> fault + int" where
  "pow2_int e = (if e < 0 then Inr 0 else if e \<le> 30 then Inr (2 ^ nat e) else Inl FloatToIntRange)"

text \<open>
  \<^verbatim>\<open>ceil(log10(n) / log10(2))\<close>, converted to \<^verbatim>\<open>int\<close>, as the value of the exact
  quotient: the least \<open>k\<close> with \<open>n \<le> 2 ^ k\<close>. For \<open>n \<le> 0\<close> the logarithm is
  infinite or not a number and the conversion is undefined.
\<close>

fun clog2 :: "nat \<Rightarrow> nat" where
  "clog2 n = (if n \<le> 1 then 0 else Suc (clog2 ((n + 1) div 2)))"

declare clog2.simps [simp del]

definition ceil_log2 :: "int \<Rightarrow> fault + int" where
  "ceil_log2 n = (if n \<le> 0 then Inl FloatToIntRange else Inr (int (clog2 (nat n))))"

text \<open>
  \<^verbatim>\<open>pow(2, indexSize) - 1\<close> stored into the \<^verbatim>\<open>int\<close> field \<^verbatim>\<open>indexBitMask\<close>: for a
  negative exponent the difference lies strictly between \<open>-1\<close> and \<open>0\<close> and truncates to 0.
\<close>

definition mask_of :: "int \<Rightarrow> fault + int" where
  "mask_of indexSize =
     (if indexSize < 0 then Inr 0
      else if indexSize \<le> 31 then Inr (2 ^ nat indexSize - 1)
      else Inl FloatToIntRange)"

section \<open>CreateCache\<close>

text \<open>
  The loop of lines 72 to 75:
  \<^verbatim>\<open>for (addressBitShift = 0; addressBitShift < dataSize; addressBitShift++)
    if ((dataSize % (int)pow(2, addressBitShift + 1)) != 0) break;\<close>
\<close>

function shift_loop :: "int \<Rightarrow> int \<Rightarrow> fault + int" where
  "shift_loop dSize k =
     (if k < dSize then
        (case pow2_int (k + 1) of
           Inl e \<Rightarrow> Inl e
         | Inr p \<Rightarrow>
             (case c_rem dSize p of
                Inl e \<Rightarrow> Inl e
              | Inr r \<Rightarrow> if r \<noteq> 0 then Inr k else shift_loop dSize (k + 1)))
      else Inr k)"
  by pat_completeness auto
termination
  by (relation "measure (\<lambda>(dSize, k). nat (dSize - k))") auto

declare shift_loop.simps [simp del]

text \<open>The \<^verbatim>\<open>switch (config)\<close> of lines 15 to 38: sets, lines per set and index size.\<close>

definition geometry :: "int \<Rightarrow> CacheConfiguration_t \<Rightarrow> fault + (int \<times> int \<times> int)" where
  "geometry numberOfCacheLines cfg =
     (case cfg of
        direct_mapped \<Rightarrow>
          (case ceil_log2 numberOfCacheLines of
             Inl e \<Rightarrow> Inl e
           | Inr l \<Rightarrow> Inr (numberOfCacheLines, 1, l))
      | two_way \<Rightarrow>
          (case ceil_log2 numberOfCacheLines of
             Inl e \<Rightarrow> Inl e
           | Inr l \<Rightarrow> Inr (numberOfCacheLines sdiv 2, 2, l - 1))
      | four_way \<Rightarrow>
          (case ceil_log2 numberOfCacheLines of
             Inl e \<Rightarrow> Inl e
           | Inr l \<Rightarrow> Inr (numberOfCacheLines sdiv 4, 4, l - 2))
      | fully_associative \<Rightarrow> Inr (1, numberOfCacheLines, 1))"

text \<open>Lines 64 to 67: a line as the allocation loop initialises it.\<close>

definition init_line :: CacheLine_t where
  "init_line =
     \<lparr>valid = False, tag = NULL,
      metaData = \<lparr>nodeId = - 1, accessedOrder = 0\<rparr>, deviceData = None\<rparr>"

text \<open>
  \<^verbatim>\<open>CreateCache\<close>. The allocations are taken to succeed; the seeding of the random
  generator and the optional printing have no effect on the cache. The product
  \<^verbatim>\<open>numberOfCacheLines * dataSize\<close> of line 41 is computed in \<^verbatim>\<open>int\<close> on every call.
\<close>

definition CreateCache ::
  "int \<Rightarrow> int \<Rightarrow> int \<Rightarrow> CacheConfiguration_t \<Rightarrow> ReplacementPolicy_t \<Rightarrow> fault + Cache_t" where
  "CreateCache numberOfCacheLines dSize tSize cfg pol =
     (case geometry numberOfCacheLines cfg of
        Inl e \<Rightarrow> Inl e
      | Inr (nSets, nLinesPerSet, indexSize) \<Rightarrow>
          if numberOfCacheLines * dSize < INT_MIN \<or> INT_MAX < numberOfCacheLines * dSize
          then Inl SignedOverflow
          else
            (case shift_loop dSize 0 of
               Inl e \<Rightarrow> Inl e
             | Inr shift \<Rightarrow>
                 (case (if cfg = fully_associative then Inr 0 else mask_of indexSize) of
                    Inl e \<Rightarrow> Inl e
                  | Inr msk \<Rightarrow>
                      Inr \<lparr>memCopies = 0, ReadTransfers = 0, WriteTransfers = 0,
                           tagSize = tSize, dataSize = dSize,
                           indexBitMask = msk, addressBitShift = shift,
                           numberOfLinesPerSet = nLinesPerSet, numberOfSets = nSets,
                           config = cfg,
                           cacheLine = replicate (nat nSets) (replicate (nat nLinesPerSet) init_line),
                           replacementLine = replicate (nat nSets) 0,
                           policy = pol\<rparr>)))"

section \<open>Access to the line table\<close>

text \<open>
  \<^verbatim>\<open>cachePtr->cacheLine[setIndex]\<close>, \<^verbatim>\<open>Set[way]\<close> and
  \<^verbatim>\<open>cachePtr->replacementLine[setIndex]\<close>: an index outside the allocated array is a fault.
  Every set and the meta data of every line are allocations of their own, so no two lines
  share storage and a nested list is the whole table.
\<close>

definition set_at :: "Cache_t \<Rightarrow> int \<Rightarrow> fault + CacheLine_t list" where
  "set_at c setIndex =
     (if 0 \<le> setIndex \<and> setIndex < int (length (cacheLine c))
      then Inr (cacheLine c ! nat setIndex) else Inl OutOfBounds)"

definition way_at :: "CacheLine_t list \<Rightarrow> int \<Rightarrow> fault + CacheLine_t" where
  "way_at S way =
     (if 0 \<le> way \<and> way < int (length S) then Inr (S ! nat way) else Inl OutOfBounds)"

definition line_at :: "Cache_t \<Rightarrow> int \<Rightarrow> int \<Rightarrow> fault + CacheLine_t" where
  "line_at c setIndex way =
     (case set_at c setIndex of Inl e \<Rightarrow> Inl e | Inr S \<Rightarrow> way_at S way)"

definition cursor_at :: "Cache_t \<Rightarrow> int \<Rightarrow> fault + int" where
  "cursor_at c setIndex =
     (if 0 \<le> setIndex \<and> setIndex < int (length (replacementLine c))
      then Inr (replacementLine c ! nat setIndex) else Inl OutOfBounds)"

text \<open>A store into \<^verbatim>\<open>cachePtr->replacementLine[setIndex]\<close>, after the read of the same cell.\<close>

definition put_cursor :: "Cache_t \<Rightarrow> int \<Rightarrow> int \<Rightarrow> Cache_t" where
  "put_cursor c setIndex v = c\<lparr>replacementLine := (replacementLine c)[nat setIndex := v]\<rparr>"

text \<open>A store into fields of \<^verbatim>\<open>cachePtr->cacheLine[setIndex][way]\<close>.\<close>

definition upd_line :: "Cache_t \<Rightarrow> int \<Rightarrow> int \<Rightarrow> (CacheLine_t \<Rightarrow> CacheLine_t) \<Rightarrow> fault + Cache_t" where
  "upd_line c setIndex way f =
     (case line_at c setIndex way of
        Inl e \<Rightarrow> Inl e
      | Inr l \<Rightarrow>
          Inr (c\<lparr>cacheLine :=
                 (cacheLine c)[nat setIndex := (cacheLine c ! nat setIndex)[nat way := f l]]\<rparr>))"

definition set_order :: "int \<Rightarrow> CacheLine_t \<Rightarrow> CacheLine_t" where
  "set_order v l = l\<lparr>metaData := (metaData l)\<lparr>accessedOrder := v\<rparr>\<rparr>"

definition order_of :: "CacheLine_t \<Rightarrow> int" where
  "order_of l = accessedOrder (metaData l)"

section \<open>GetIndex and GetWay\<close>

text \<open>
  \<^verbatim>\<open>(int)(((intptr_t)hostAddress >> addressBitShift) & indexBitMask)\<close>: the shift is the
  arithmetic one, the mask is sign-extended to 64 bits and the result is cut to 32 bits.
\<close>

definition GetIndex :: "int \<Rightarrow> int \<Rightarrow> addr \<Rightarrow> fault + int" where
  "GetIndex msk shift hostAddress =
     (if shift < 0 \<or> 64 \<le> shift then Inl ShiftRange
      else Inr (sint (ucast (signed_drop_bit (nat shift) hostAddress AND word_of_int msk) :: 32 word)))"

text \<open>Lines 130 to 136: the replacement book-keeping of a way that was found.\<close>

definition GetWay_touch :: "Cache_t \<Rightarrow> int \<Rightarrow> int \<Rightarrow> fault + Cache_t" where
  "GetWay_touch c setIndex way =
     (if policy c = lru_RP \<or> policy c = mru_RP then
        (case cursor_at c setIndex of
           Inl e \<Rightarrow> Inl e
         | Inr r \<Rightarrow>
             (case incr r of
                Inl e \<Rightarrow> Inl e
              | Inr r' \<Rightarrow> upd_line (put_cursor c setIndex r') setIndex way (set_order r')))
      else if policy c = lfu_RP \<or> policy c = mfu_RP then
        (case line_at c setIndex way of
           Inl e \<Rightarrow> Inl e
         | Inr l \<Rightarrow>
             (case incr (order_of l) of
                Inl e \<Rightarrow> Inl e
              | Inr v \<Rightarrow> upd_line c setIndex way (set_order v)))
      else Inr c)"

text \<open>The loop of lines 127 to 139; \<open>S\<close> is the set that line 119 fetched.\<close>

function GetWay_loop ::
  "addr \<Rightarrow> int \<Rightarrow> Cache_t \<Rightarrow> CacheLine_t list \<Rightarrow> int \<Rightarrow> fault + (int \<times> Cache_t)" where
  "GetWay_loop hostAddress setIndex c S way =
     (if way < numberOfLinesPerSet c then
        (case way_at S way of
           Inl e \<Rightarrow> Inl e
         | Inr l \<Rightarrow>
             if valid l \<and> tag l = hostAddress then
               (case GetWay_touch c setIndex way of
                  Inl e \<Rightarrow> Inl e
                | Inr c' \<Rightarrow> Inr (way, c'))
             else GetWay_loop hostAddress setIndex c S (way + 1))
      else Inr (- 1, c))"
  by pat_completeness auto
termination
  by (relation "measure (\<lambda>(hostAddress, setIndex, c, S, way). nat (numberOfLinesPerSet c - way))")
    auto

declare GetWay_loop.simps [simp del]

definition GetWay :: "addr \<Rightarrow> int \<Rightarrow> Cache_t \<Rightarrow> fault + (int \<times> Cache_t)" where
  "GetWay hostAddress setIndex c =
     (case set_at c setIndex of
        Inl e \<Rightarrow> Inl e
      | Inr S \<Rightarrow>
          if config c = direct_mapped then Inr (0, c)
          else GetWay_loop hostAddress setIndex c S 0)"

section \<open>SetWay\<close>

text \<open>The scan for an empty way of \<^verbatim>\<open>random_RP\<close> (lines 151 to 154).\<close>

function first_invalid :: "CacheLine_t list \<Rightarrow> int \<Rightarrow> int \<Rightarrow> fault + int option" where
  "first_invalid S n way =
     (if way < n then
        (case way_at S way of
           Inl e \<Rightarrow> Inl e
         | Inr l \<Rightarrow> if \<not> valid l then Inr (Some way) else first_invalid S n (way + 1))
      else Inr None)"
  by pat_completeness auto
termination
  by (relation "measure (\<lambda>(S, n, way). nat (n - way))") auto

declare first_invalid.simps [simp del]

text \<open>The scan of \<^verbatim>\<open>lru_RP\<close> and \<^verbatim>\<open>lfu_RP\<close> for the least \<^verbatim>\<open>accessedOrder\<close>.\<close>

function scan_min :: "CacheLine_t list \<Rightarrow> int \<Rightarrow> int \<Rightarrow> int \<Rightarrow> fault + int" where
  "scan_min S n way replacementWay =
     (if way < n then
        (case way_at S way of
           Inl e \<Rightarrow> Inl e
         | Inr l \<Rightarrow>
             (case way_at S replacementWay of
                Inl e \<Rightarrow> Inl e
              | Inr m \<Rightarrow>
                  scan_min S n (way + 1)
                    (if order_of l < order_of m then way else replacementWay)))
      else Inr replacementWay)"
  by pat_completeness auto
termination
  by (relation "measure (\<lambda>(S, n, way, replacementWay). nat (n - way))") auto

declare scan_min.simps [simp del]

text \<open>
  The scan of \<^verbatim>\<open>mru_RP\<close> and \<^verbatim>\<open>mfu_RP\<close>: it stops at the first empty way, and
  otherwise keeps the greatest \<^verbatim>\<open>accessedOrder\<close>.
\<close>

function scan_max :: "CacheLine_t list \<Rightarrow> int \<Rightarrow> int \<Rightarrow> int \<Rightarrow> fault + int" where
  "scan_max S n way replacementWay =
     (if way < n then
        (case way_at S way of
           Inl e \<Rightarrow> Inl e
         | Inr l \<Rightarrow>
             if \<not> valid l then Inr way
             else
               (case way_at S replacementWay of
                  Inl e \<Rightarrow> Inl e
                | Inr m \<Rightarrow>
                    scan_max S n (way + 1)
                      (if order_of l > order_of m then way else replacementWay)))
      else Inr replacementWay)"
  by pat_completeness auto
termination
  by (relation "measure (\<lambda>(S, n, way, replacementWay). nat (n - way))") auto

declare scan_max.simps [simp del]

text \<open>
  Lines 164 to 166 and 178 to 180: advance the cursor of the set and store the new value
  as the \<^verbatim>\<open>accessedOrder\<close> of the chosen way.
\<close>

definition stamp_way :: "Cache_t \<Rightarrow> int \<Rightarrow> int \<Rightarrow> fault + (int \<times> Cache_t)" where
  "stamp_way c setIndex replacementWay =
     (case cursor_at c setIndex of
        Inl e \<Rightarrow> Inl e
      | Inr r \<Rightarrow>
          (case incr r of
             Inl e \<Rightarrow> Inl e
           | Inr r' \<Rightarrow>
               (case upd_line (put_cursor c setIndex r') setIndex replacementWay (set_order r') of
                  Inl e \<Rightarrow> Inl e
                | Inr c' \<Rightarrow> Inr (replacementWay, c'))))"

text \<open>Lines 186 to 187 and 199 to 200: the chosen way starts with \<^verbatim>\<open>accessedOrder = 1\<close>.\<close>

definition reset_way :: "Cache_t \<Rightarrow> int \<Rightarrow> int \<Rightarrow> fault + (int \<times> Cache_t)" where
  "reset_way c setIndex replacementWay =
     (case upd_line c setIndex replacementWay (set_order 1) of
        Inl e \<Rightarrow> Inl e
      | Inr c' \<Rightarrow> Inr (replacementWay, c'))"

text \<open>
  \<^verbatim>\<open>SetWay\<close>. \<open>rnd\<close> is the value that \<^verbatim>\<open>rand()\<close> returns when line 155 calls it. The
  enumeration has no seventh policy, so the \<^verbatim>\<open>default\<close> branch is not a case here.
\<close>

definition SetWay :: "int \<Rightarrow> int \<Rightarrow> Cache_t \<Rightarrow> fault + (int \<times> Cache_t)" where
  "SetWay rnd setIndex c =
     (case set_at c setIndex of
        Inl e \<Rightarrow> Inl e
      | Inr S \<Rightarrow>
          (case policy c of
             random_RP \<Rightarrow>
               (case first_invalid S (numberOfLinesPerSet c) 0 of
                  Inl e \<Rightarrow> Inl e
                | Inr (Some way) \<Rightarrow> Inr (way, c)
                | Inr None \<Rightarrow>
                    (case c_rem rnd (numberOfLinesPerSet c) of
                       Inl e \<Rightarrow> Inl e
                     | Inr way \<Rightarrow> Inr (way, c)))
           | fifo_RP \<Rightarrow>
               (case cursor_at c setIndex of
                  Inl e \<Rightarrow> Inl e
                | Inr r \<Rightarrow>
                    (case incr r of
                       Inl e \<Rightarrow> Inl e
                     | Inr r' \<Rightarrow>
                         (case c_rem r' (numberOfLinesPerSet c) of
                            Inl e \<Rightarrow> Inl e
                          | Inr v \<Rightarrow> Inr (v, put_cursor c setIndex v))))
           | lru_RP \<Rightarrow>
               (case scan_min S (numberOfLinesPerSet c) 0 0 of
                  Inl e \<Rightarrow> Inl e
                | Inr replacementWay \<Rightarrow> stamp_way c setIndex replacementWay)
           | mru_RP \<Rightarrow>
               (case scan_max S (numberOfLinesPerSet c) 0 0 of
                  Inl e \<Rightarrow> Inl e
                | Inr replacementWay \<Rightarrow> stamp_way c setIndex replacementWay)
           | lfu_RP \<Rightarrow>
               (case scan_min S (numberOfLinesPerSet c) 0 0 of
                  Inl e \<Rightarrow> Inl e
                | Inr replacementWay \<Rightarrow> reset_way c setIndex replacementWay)
           | mfu_RP \<Rightarrow>
               (case scan_max S (numberOfLinesPerSet c) 0 0 of
                  Inl e \<Rightarrow> Inl e
                | Inr replacementWay \<Rightarrow> reset_way c setIndex replacementWay)))"

section \<open>clCreateCacheBuffer and clEnqueueReadCacheBuffer\<close>

text \<open>
  The calls that a cache operation makes, in order: the evictor \<^verbatim>\<open>SetWay\<close> with its set
  index, and the two functions of the backing store with the flags or handle, the size and
  the host address they are given.
\<close>

datatype call =
  Call_SetWay int
| Call_clCreateBuffer cl_mem_flags int addr
| Call_clEnqueueReadBuffer "cl_mem option" int addr

text \<open>
  What \<^verbatim>\<open>clCreateCacheBuffer\<close> hands back: the returned handle, the value left in
  \<^verbatim>\<open>*errorcode_ret\<close> (\<open>None\<close> when nothing wrote it), the calls made and the cache.
\<close>

record create_out =
  handle :: "cl_mem option"
  errorcode_ret :: "cl_int option"
  trace :: "call list"
  cache_after :: Cache_t

record read_out =
  status :: int
  rtrace :: "call list"
  rcache :: Cache_t

text \<open>
  The condition of line 212 without its negation. The flag test comes first and
  \<^verbatim>\<open>&&\<close> evaluates its right operand only when the left one holds, so the line is read
  exactly when \<^verbatim>\<open>CL_MEM_COPY_HOST_PTR\<close> is set.
\<close>

definition cached :: "cl_mem_flags \<Rightarrow> addr \<Rightarrow> Cache_t \<Rightarrow> int \<Rightarrow> int \<Rightarrow> fault + bool" where
  "cached flags hostAddress c st way =
     (if flags AND CL_MEM_COPY_HOST_PTR = CL_MEM_COPY_HOST_PTR then
        (case line_at c st way of
           Inl e \<Rightarrow> Inl e
         | Inr l \<Rightarrow> Inr (valid l \<and> tag l = hostAddress))
      else Inr False)"

text \<open>The flags that lines 219 to 223 pass to \<^verbatim>\<open>clCreateBuffer\<close>.\<close>

definition create_flags :: "cl_mem_flags \<Rightarrow> addr \<Rightarrow> cl_mem_flags" where
  "create_flags flags hostAddress =
     (if hostAddress \<noteq> NULL then flags OR CL_MEM_COPY_HOST_PTR else flags)"

text \<open>
  Lines 219 to 232, with \<open>bs\<close> the handle that \<^verbatim>\<open>clCreateBuffer\<close> returns and the code
  it writes to \<^verbatim>\<open>*errorcode_ret\<close>: store the handle, count, set the tag and the
  valid flag.
\<close>

definition populate ::
  "cl_mem \<times> cl_int \<Rightarrow> cl_mem_flags \<Rightarrow> addr \<Rightarrow> Cache_t \<Rightarrow> int \<Rightarrow> int \<Rightarrow> fault + Cache_t" where
  "populate bs flags hostAddress c st way =
     (case upd_line c st way (\<lambda>l. l\<lparr>deviceData := Some (fst bs)\<rparr>) of
        Inl e \<Rightarrow> Inl e
      | Inr c1 \<Rightarrow>
          (case incr (memCopies c1) of
             Inl e \<Rightarrow> Inl e
           | Inr m \<Rightarrow>
               (case (if flags AND CL_MEM_COPY_HOST_PTR = CL_MEM_COPY_HOST_PTR
                      then incr (WriteTransfers c1) else Inr (WriteTransfers c1)) of
                  Inl e \<Rightarrow> Inl e
                | Inr w \<Rightarrow>
                    upd_line (c1\<lparr>memCopies := m, WriteTransfers := w\<rparr>) st way
                      (\<lambda>l. l\<lparr>tag := hostAddress, valid := True\<rparr>))))"

text \<open>
  \<^verbatim>\<open>clCreateCacheBuffer\<close>. The parameters \<^verbatim>\<open>context\<close> and \<^verbatim>\<open>size\<close> are left out: the
  first is only passed on and the second is not used (the buffer has
  \<^verbatim>\<open>cachePtr->dataSize\<close> bytes). \<open>bs\<close> is the answer of \<^verbatim>\<open>clCreateBuffer\<close> and \<open>rnd\<close>
  that of \<^verbatim>\<open>rand()\<close>, wherever the code asks for them.
\<close>

definition clCreateCacheBuffer ::
  "cl_mem \<times> cl_int \<Rightarrow> int \<Rightarrow> cl_mem_flags \<Rightarrow> addr \<Rightarrow> Cache_t \<Rightarrow> fault + create_out" where
  "clCreateCacheBuffer bs rnd flags hostAddress c =
     (case GetIndex (indexBitMask c) (addressBitShift c) hostAddress of
        Inl e \<Rightarrow> Inl e
      | Inr st \<Rightarrow>
          (case GetWay hostAddress st c of
             Inl e \<Rightarrow> Inl e
           | Inr (way, c1) \<Rightarrow>
               (case cached flags hostAddress c1 st way of
                  Inl e \<Rightarrow> Inl e
                | Inr True \<Rightarrow>
                    (case line_at c1 st way of
                       Inl e \<Rightarrow> Inl e
                     | Inr l \<Rightarrow>
                         Inr \<lparr>handle = deviceData l, errorcode_ret = None, trace = [],
                              cache_after = c1\<rparr>)
                | Inr False \<Rightarrow>
                    (case (if way = - 1
                           then (case SetWay rnd st c1 of
                                   Inl e \<Rightarrow> Inl e
                                 | Inr (w, c2) \<Rightarrow> Inr (w, c2, [Call_SetWay st]))
                           else Inr (way, c1, [])) of
                       Inl e \<Rightarrow> Inl e
                     | Inr (way', c2, tr) \<Rightarrow>
                         (case populate bs flags hostAddress c2 st way' of
                            Inl e \<Rightarrow> Inl e
                          | Inr c3 \<Rightarrow>
                              (case line_at c3 st way' of
                                 Inl e \<Rightarrow> Inl e
                               | Inr l \<Rightarrow>
                                   Inr \<lparr>handle = deviceData l,
                                        errorcode_ret = Some (snd bs),
                                        trace = tr @ [Call_clCreateBuffer
                                                  (create_flags flags hostAddress)
                                                  (dataSize c2) hostAddress],
                                        cache_after = c3\<rparr>))))))"

text \<open>
  \<^verbatim>\<open>clEnqueueReadCacheBuffer\<close>, with \<open>rd\<close> the error code that \<^verbatim>\<open>clEnqueueReadBuffer\<close>
  returns. The code stores it in the local \<^verbatim>\<open>err\<close> and never reads it again, so the
  right-hand side does not mention \<open>rd\<close>. Only the host address and the cache of the
  nine parameters decide what the function does to the cache.
\<close>

definition clEnqueueReadCacheBuffer :: "cl_int \<Rightarrow> addr \<Rightarrow> Cache_t \<Rightarrow> fault + read_out" where
  "clEnqueueReadCacheBuffer rd hostAddress c =
     (case GetIndex (indexBitMask c) (addressBitShift c) hostAddress of
        Inl e \<Rightarrow> Inl e
      | Inr st \<Rightarrow>
          (case GetWay hostAddress st c of
             Inl e \<Rightarrow> Inl e
           | Inr (way, c1) \<Rightarrow>
               (case line_at c1 st way of
                  Inl e \<Rightarrow> Inl e
                | Inr l \<Rightarrow>
                    if valid l \<and> tag l = hostAddress then
                      (case incr (memCopies c1) of
                         Inl e \<Rightarrow> Inl e
                       | Inr m \<Rightarrow>
                           (case incr (ReadTransfers c1) of
                              Inl e \<Rightarrow> Inl e
                            | Inr r \<Rightarrow>
                                Inr \<lparr>status = 0,
                                     rtrace = [Call_clEnqueueReadBuffer (deviceData l)
                                                 (dataSize c1) hostAddress],
                                     rcache = c1\<lparr>memCopies := m, ReadTransfers := r\<rparr>\<rparr>))
                    else Inr \<lparr>status = 1, rtrace = [], rcache = c1\<rparr>)))"

section \<open>Sequences of operations\<close>

text \<open>
  A client's call of one of the two operations, with the answers of the backing store and
  of \<^verbatim>\<open>rand()\<close> that the call meets.
\<close>

datatype op =
  Resolve "cl_mem \<times> cl_int" int cl_mem_flags addr
| ReadBack cl_int addr

fun step :: "op \<Rightarrow> Cache_t \<Rightarrow> fault + Cache_t" where
  "step (Resolve bs rnd flags hostAddress) c =
     (case clCreateCacheBuffer bs rnd flags hostAddress c of
        Inl e \<Rightarrow> Inl e
      | Inr r \<Rightarrow> Inr (cache_after r))"
| "step (ReadBack rd hostAddress) c =
     (case clEnqueueReadCacheBuffer rd hostAddress c of
        Inl e \<Rightarrow> Inl e
      | Inr r \<Rightarrow> Inr (rcache r))"

fun run :: "op list \<Rightarrow> Cache_t \<Rightarrow> fault + Cache_t" where
  "run [] c = Inr c"
| "run (x # xs) c = (case step x c of Inl e \<Rightarrow> Inl e | Inr c' \<Rightarrow> run xs c')"

section \<open>Observations used in the statements\<close>

text \<open>The test of lines 128, 212 and 244: the line is valid and its tag is the address.\<close>

definition matches :: "addr \<Rightarrow> CacheLine_t \<Rightarrow> bool" where
  "matches hostAddress l \<longleftrightarrow> valid l \<and> tag l = hostAddress"

text \<open>The valid flag, the tag and the handle of every line, without the meta data.\<close>

definition contents :: "Cache_t \<Rightarrow> (bool \<times> addr \<times> cl_mem option) list list" where
  "contents c = map (map (\<lambda>l. (valid l, tag l, deviceData l))) (cacheLine c)"

text \<open>The three counters of a cache.\<close>

definition counters :: "Cache_t \<Rightarrow> int \<times> int \<times> int" where
  "counters c = (memCopies c, WriteTransfers c, ReadTransfers c)"

text \<open>One fallible step after another: the second runs on the result of the first.\<close>

definition and_then :: "fault + 'a \<Rightarrow> ('a \<Rightarrow> fault + 'b) \<Rightarrow> fault + 'b" where
  "and_then m f = (case m of Inl e \<Rightarrow> Inl e | Inr x \<Rightarrow> f x)"

section \<open>Example caches\<close>

text \<open>
  \<^verbatim>\<open>CreateCache(4, 64, 32, direct_mapped, lru_RP)\<close>, and the same cache after
  \<^verbatim>\<open>clCreateCacheBuffer\<close> has stored the handle 100 for the host address 64.
\<close>

definition direct_fresh :: Cache_t where
  "direct_fresh =
     \<lparr>memCopies = 0, ReadTransfers = 0, WriteTransfers = 0, tagSize = 32, dataSize = 64,
      indexBitMask = 3, addressBitShift = 6, numberOfLinesPerSet = 1, numberOfSets = 4,
      config = direct_mapped,
      cacheLine = [[init_line], [init_line], [init_line], [init_line]],
      replacementLine = [0, 0, 0, 0], policy = lru_RP\<rparr>"

definition direct_one :: Cache_t where
  "direct_one =
     direct_fresh
       \<lparr>memCopies := 1, WriteTransfers := 1,
        cacheLine :=
          [[init_line],
           [\<lparr>valid = True, tag = 64, metaData = \<lparr>nodeId = - 1, accessedOrder = 0\<rparr>,
             deviceData = Some 100\<rparr>],
           [init_line], [init_line]]\<rparr>"

text \<open>
  \<^verbatim>\<open>CreateCache(4, 64, 32, two_way, lru_RP)\<close>, and the same cache after a call of
  \<^verbatim>\<open>clCreateCacheBuffer\<close> with the flags \<^verbatim>\<open>CL_MEM_READ_WRITE\<close> and the host address
  \<^verbatim>\<open>NULL\<close> has stored the handle 100.
\<close>

definition two_way_fresh :: Cache_t where
  "two_way_fresh =
     \<lparr>memCopies = 0, ReadTransfers = 0, WriteTransfers = 0, tagSize = 32, dataSize = 64,
      indexBitMask = 1, addressBitShift = 6, numberOfLinesPerSet = 2, numberOfSets = 2,
      config = two_way,
      cacheLine = [[init_line, init_line], [init_line, init_line]],
      replacementLine = [0, 0], policy = lru_RP\<rparr>"

definition two_way_one :: Cache_t where
  "two_way_one =
     two_way_fresh
       \<lparr>memCopies := 1,
        cacheLine :=
          [[\<lparr>valid = True, tag = NULL, metaData = \<lparr>nodeId = - 1, accessedOrder = 1\<rparr>,
             deviceData = Some 100\<rparr>, init_line],
           [init_line, init_line]],
        replacementLine := [1, 0]\<rparr>"

text \<open>\<^verbatim>\<open>CreateCache(4, 64, 32, two_way, fifo_RP)\<close>.\<close>

definition two_way_fifo :: Cache_t where
  "two_way_fifo = two_way_fresh\<lparr>policy := fifo_RP\<rparr>"

section \<open>Facts about the access functions\<close>

lemma incr_Inr_iff: "incr x = Inr y \<longleftrightarrow> x < INT_MAX \<and> y = x + 1"
  by (auto simp: incr_def)

lemma way_at_Inr_iff: "way_at S w = Inr l \<longleftrightarrow> 0 \<le> w \<and> w < int (length S) \<and> l = S ! nat w"
  by (auto simp: way_at_def)

lemma set_at_Inr_iff:
  "set_at c s = Inr S \<longleftrightarrow> 0 \<le> s \<and> s < int (length (cacheLine c)) \<and> S = cacheLine c ! nat s"
  by (auto simp: set_at_def)

lemma line_at_Inr_iff:
  "line_at c s w = Inr l \<longleftrightarrow> (\<exists>S. set_at c s = Inr S \<and> way_at S w = Inr l)"
  by (auto simp: line_at_def split: sum.splits)

lemma upd_line_Inr_iff:
  "upd_line c s w f = Inr c' \<longleftrightarrow>
     (\<exists>l. line_at c s w = Inr l \<and>
          c' = c\<lparr>cacheLine := (cacheLine c)[nat s := (cacheLine c ! nat s)[nat w := f l]]\<rparr>)"
  by (auto simp: upd_line_def split: sum.splits)

lemma line_at_put_cursor [simp]: "line_at (put_cursor c s v) s' w = line_at c s' w"
  by (simp add: line_at_def set_at_def put_cursor_def)

lemma set_at_put_cursor [simp]: "set_at (put_cursor c s v) s' = set_at c s'"
  by (simp add: set_at_def put_cursor_def)

lemma contents_put_cursor [simp]: "contents (put_cursor c s v) = contents c"
  by (simp add: contents_def put_cursor_def)

lemma upd_line_same:
  assumes "upd_line c s w f = Inr c'" "line_at c s w = Inr l"
  shows "line_at c' s w = Inr (f l)"
  using assms
  by (auto simp: upd_line_Inr_iff line_at_Inr_iff set_at_Inr_iff way_at_Inr_iff)

lemma upd_line_contents:
  assumes "upd_line c s w f = Inr c'"
    and "\<And>l. valid (f l) = valid l \<and> tag (f l) = tag l \<and> deviceData (f l) = deviceData l"
  shows "contents c' = contents c"
proof -
  from assms(1) obtain l where l: "line_at c s w = Inr l"
    and c': "c' = c\<lparr>cacheLine := (cacheLine c)[nat s := (cacheLine c ! nat s)[nat w := f l]]\<rparr>"
    by (auto simp: upd_line_Inr_iff)
  let ?g = "\<lambda>l. (valid l, tag l, deviceData l)"
  from l have s: "nat s < length (cacheLine c)" and w: "nat w < length (cacheLine c ! nat s)"
    and le: "l = cacheLine c ! nat s ! nat w"
    by (auto simp: line_at_Inr_iff set_at_Inr_iff way_at_Inr_iff)
  have "map ?g ((cacheLine c ! nat s)[nat w := f l]) = map ?g (cacheLine c ! nat s)"
    using w le assms(2) by (simp add: map_update list_update_same_conv)
  then show ?thesis
    using s by (simp add: contents_def c' map_update list_update_same_conv)
qed

lemma set_order_fields [simp]:
  "valid (set_order v l) = valid l" "tag (set_order v l) = tag l"
  "deviceData (set_order v l) = deviceData l" "order_of (set_order v l) = v"
  by (simp_all add: set_order_def order_of_def)

lemma upd_line_fields:
  assumes "upd_line c s w f = Inr c'"
  shows "memCopies c' = memCopies c" "ReadTransfers c' = ReadTransfers c"
    "WriteTransfers c' = WriteTransfers c" "replacementLine c' = replacementLine c"
    "policy c' = policy c" "config c' = config c"
    "numberOfLinesPerSet c' = numberOfLinesPerSet c" "indexBitMask c' = indexBitMask c"
    "addressBitShift c' = addressBitShift c" "dataSize c' = dataSize c"
    "length (cacheLine c') = length (cacheLine c)"
  using assms by (auto simp: upd_line_Inr_iff)

lemma put_cursor_fields [simp]:
  "memCopies (put_cursor c s v) = memCopies c" "ReadTransfers (put_cursor c s v) = ReadTransfers c"
  "WriteTransfers (put_cursor c s v) = WriteTransfers c"
  "policy (put_cursor c s v) = policy c" "config (put_cursor c s v) = config c"
  "numberOfLinesPerSet (put_cursor c s v) = numberOfLinesPerSet c"
  "indexBitMask (put_cursor c s v) = indexBitMask c"
  "addressBitShift (put_cursor c s v) = addressBitShift c"
  "dataSize (put_cursor c s v) = dataSize c"
  "cacheLine (put_cursor c s v) = cacheLine c"
  by (simp_all add: put_cursor_def)

lemma GetWay_touch_cases:
  assumes "GetWay_touch c s w = Inr c'"
  obtains (stamp) r where "policy c = lru_RP \<or> policy c = mru_RP" "cursor_at c s = Inr r"
      "r < INT_MAX" "upd_line (put_cursor c s (r + 1)) s w (set_order (r + 1)) = Inr c'"
  | (count) l where "policy c = lfu_RP \<or> policy c = mfu_RP" "line_at c s w = Inr l"
      "order_of l < INT_MAX" "upd_line c s w (set_order (order_of l + 1)) = Inr c'"
  | (none) "policy c = random_RP \<or> policy c = fifo_RP" "c' = c"
proof (cases "policy c = lru_RP \<or> policy c = mru_RP")
  case True
  with assms obtain r where "cursor_at c s = Inr r" "r < INT_MAX"
    "upd_line (put_cursor c s (r + 1)) s w (set_order (r + 1)) = Inr c'"
    by (auto simp: GetWay_touch_def incr_Inr_iff split: sum.splits)
  with True show ?thesis by (rule stamp)
next
  case False
  show ?thesis
  proof (cases "policy c = lfu_RP \<or> policy c = mfu_RP")
    case True
    with assms \<open>\<not> (policy c = lru_RP \<or> policy c = mru_RP)\<close>
    obtain l where "line_at c s w = Inr l" "order_of l < INT_MAX"
      "upd_line c s w (set_order (order_of l + 1)) = Inr c'"
      by (auto simp: GetWay_touch_def incr_Inr_iff split: sum.splits)
    with True show ?thesis by (rule count)
  next
    case False
    with assms \<open>\<not> (policy c = lru_RP \<or> policy c = mru_RP)\<close>
    have "c' = c" by (simp add: GetWay_touch_def)
    moreover from False \<open>\<not> (policy c = lru_RP \<or> policy c = mru_RP)\<close>
    have "policy c = random_RP \<or> policy c = fifo_RP"
      by (cases "policy c") auto
    ultimately show ?thesis by (rule none [rotated])
  qed
qed

lemma GetWay_touch_preserves:
  assumes "GetWay_touch c s w = Inr c'"
  shows "contents c' = contents c" "memCopies c' = memCopies c"
    "ReadTransfers c' = ReadTransfers c" "WriteTransfers c' = WriteTransfers c"
    "policy c' = policy c" "config c' = config c"
    "numberOfLinesPerSet c' = numberOfLinesPerSet c" "indexBitMask c' = indexBitMask c"
    "addressBitShift c' = addressBitShift c" "dataSize c' = dataSize c"
proof -
  have "contents c' = contents c \<and> memCopies c' = memCopies c \<and>
    ReadTransfers c' = ReadTransfers c \<and> WriteTransfers c' = WriteTransfers c \<and>
    policy c' = policy c \<and> config c' = config c \<and>
    numberOfLinesPerSet c' = numberOfLinesPerSet c \<and> indexBitMask c' = indexBitMask c \<and>
    addressBitShift c' = addressBitShift c \<and> dataSize c' = dataSize c"
    using assms
  proof (cases rule: GetWay_touch_cases)
    case (stamp r)
    from upd_line_contents [OF stamp(4)] upd_line_fields [OF stamp(4)] show ?thesis
      by simp
  next
    case (count l)
    from upd_line_contents [OF count(4)] upd_line_fields [OF count(4)] show ?thesis
      by simp
  next
    case none
    then show ?thesis by simp
  qed
  then show "contents c' = contents c" "memCopies c' = memCopies c"
    "ReadTransfers c' = ReadTransfers c" "WriteTransfers c' = WriteTransfers c"
    "policy c' = policy c" "config c' = config c"
    "numberOfLinesPerSet c' = numberOfLinesPerSet c" "indexBitMask c' = indexBitMask c"
    "addressBitShift c' = addressBitShift c" "dataSize c' = dataSize c"
    by simp_all
qed

lemma GetWay_loop_miss:
  assumes "numberOfLinesPerSet c \<le> int (length S)"
    and "\<forall>v. w \<le> v \<and> v < numberOfLinesPerSet c \<longrightarrow> \<not> (valid (S ! nat v) \<and> tag (S ! nat v) = a)"
    and "0 \<le> w"
  shows "GetWay_loop a s c S w = Inr (- 1, c)"
  using assms
proof (induction a s c S w rule: GetWay_loop.induct)
  case (1 a s c S w)
  show ?case
  proof (cases "w < numberOfLinesPerSet c")
    case False
    then show ?thesis by (subst GetWay_loop.simps) simp
  next
    case True
    with "1.prems" have wa: "way_at S w = Inr (S ! nat w)"
      by (simp add: way_at_def)
    from True "1.prems" have nh: "\<not> (valid (S ! nat w) \<and> tag (S ! nat w) = a)"
      by simp
    have "GetWay_loop a s c S (w + 1) = Inr (- 1, c)"
      using "1.IH" [OF True wa nh] "1.prems" by simp
    with True wa nh show ?thesis
      by (subst GetWay_loop.simps) auto
  qed
qed

lemma GetWay_loop_hit:
  assumes "r < numberOfLinesPerSet c" "r < int (length S)"
    and "valid (S ! nat r) \<and> tag (S ! nat r) = a"
    and "\<forall>v. w \<le> v \<and> v < r \<longrightarrow> \<not> (valid (S ! nat v) \<and> tag (S ! nat v) = a)"
    and "0 \<le> w" "w \<le> r"
  shows "GetWay_loop a s c S w =
           (case GetWay_touch c s r of Inl e \<Rightarrow> Inl e | Inr c' \<Rightarrow> Inr (r, c'))"
  using assms
proof (induction a s c S w rule: GetWay_loop.induct)
  case (1 a s c S w)
  from "1.prems" have lt: "w < numberOfLinesPerSet c" by simp
  from "1.prems" have wa: "way_at S w = Inr (S ! nat w)"
    by (simp add: way_at_def)
  show ?case
  proof (cases "w = r")
    case True
    with lt wa "1.prems"(3) show ?thesis
      by (subst GetWay_loop.simps) auto
  next
    case False
    with "1.prems" have nh: "\<not> (valid (S ! nat w) \<and> tag (S ! nat w) = a)"
      by simp
    have "GetWay_loop a s c S (w + 1) =
            (case GetWay_touch c s r of Inl e \<Rightarrow> Inl e | Inr c' \<Rightarrow> Inr (r, c'))"
      using "1.IH" [OF lt wa nh] "1.prems" False by simp
    with lt wa nh show ?thesis
      by (subst GetWay_loop.simps) auto
  qed
qed

lemma GetWay_direct_mapped:
  "config c = direct_mapped \<Longrightarrow> set_at c s = Inr S \<Longrightarrow> GetWay a s c = Inr (0, c)"
  by (simp add: GetWay_def)

lemma GetWay_loop_step:
  assumes "w < numberOfLinesPerSet c" "way_at S w = Inr l"
  shows "GetWay_loop a s c S w =
           (if valid l \<and> tag l = a
            then (case GetWay_touch c s w of Inl e \<Rightarrow> Inl e | Inr c' \<Rightarrow> Inr (w, c'))
            else GetWay_loop a s c S (w + 1))"
  using assms by (subst GetWay_loop.simps) simp

lemma GetWay_loop_Inr:
  assumes "GetWay_loop a s c S w0 = Inr (w, c')" and "0 \<le> w0"
  shows "(w = - 1 \<and> c' = c) \<or>
         (w0 \<le> w \<and> w < numberOfLinesPerSet c \<and> way_at S w = Inr (S ! nat w) \<and>
          matches a (S ! nat w) \<and> GetWay_touch c s w = Inr c')"
  using assms
proof (induction a s c S w0 rule: GetWay_loop.induct)
  case (1 a s c S w0)
  show ?case
  proof (cases "w0 < numberOfLinesPerSet c")
    case False
    with "1.prems" show ?thesis
      by (subst (asm) GetWay_loop.simps) simp
  next
    case True
    have "way_at S w0 \<noteq> Inl OutOfBounds"
      using "1.prems"(1) True by (subst (asm) GetWay_loop.simps) auto
    then have wa: "way_at S w0 = Inr (S ! nat w0)"
      by (simp add: way_at_def split: if_splits)
    note step = GetWay_loop_step [OF True wa, of a s]
    show ?thesis
    proof (cases "valid (S ! nat w0) \<and> tag (S ! nat w0) = a")
      case hit: True
      from "1.prems"(1) have "GetWay_touch c s w0 = Inr c' \<and> w = w0"
        unfolding step using hit by (simp split: sum.splits)
      with True wa hit show ?thesis
        by (simp add: matches_def)
    next
      case nohit: False
      from "1.prems"(1) have "GetWay_loop a s c S (w0 + 1) = Inr (w, c')"
        unfolding step using nohit by simp
      from "1.IH" [OF True wa nohit this] "1.prems"(2) show ?thesis
        by auto
    qed
  qed
qed

lemma GetWay_Inr:
  assumes "GetWay a s c = Inr (w, c')"
  shows "(config c = direct_mapped \<and> w = 0 \<and> c' = c) \<or>
         (config c \<noteq> direct_mapped \<and> w = - 1 \<and> c' = c) \<or>
         (config c \<noteq> direct_mapped \<and> 0 \<le> w \<and> w < numberOfLinesPerSet c \<and>
          (\<exists>l. line_at c s w = Inr l \<and> matches a l) \<and> GetWay_touch c s w = Inr c')"
proof -
  from assms obtain S where S: "set_at c s = Inr S"
    by (auto simp: GetWay_def split: sum.splits)
  show ?thesis
  proof (cases "config c = direct_mapped")
    case True
    with assms S show ?thesis by (simp add: GetWay_def)
  next
    case False
    with assms S have "GetWay_loop a s c S 0 = Inr (w, c')"
      by (simp add: GetWay_def)
    from GetWay_loop_Inr [OF this] S False show ?thesis
      by (auto simp: line_at_def)
  qed
qed

lemma GetWay_preserves:
  assumes "GetWay a s c = Inr (w, c')"
  shows "contents c' = contents c" "memCopies c' = memCopies c"
    "ReadTransfers c' = ReadTransfers c" "WriteTransfers c' = WriteTransfers c"
    "policy c' = policy c" "config c' = config c"
    "numberOfLinesPerSet c' = numberOfLinesPerSet c" "indexBitMask c' = indexBitMask c"
    "addressBitShift c' = addressBitShift c" "dataSize c' = dataSize c"
  using GetWay_Inr [OF assms] by (auto dest: GetWay_touch_preserves)

lemma contents_line_at:
  assumes "contents c' = contents c" and "line_at c' s w = Inr l'"
  shows "\<exists>l. line_at c s w = Inr l \<and> valid l = valid l' \<and> tag l = tag l' \<and>
             deviceData l = deviceData l'"
proof -
  let ?g = "\<lambda>l. (valid l, tag l, deviceData l)"
  from assms(2) have b: "0 \<le> s" "nat s < length (cacheLine c')" "0 \<le> w"
    "nat w < length (cacheLine c' ! nat s)" "l' = cacheLine c' ! nat s ! nat w"
    by (auto simp: line_at_Inr_iff set_at_Inr_iff way_at_Inr_iff)
  from assms(1) have m: "map (map ?g) (cacheLine c') = map (map ?g) (cacheLine c)"
    by (simp add: contents_def)
  then have len: "length (cacheLine c') = length (cacheLine c)"
    by (rule map_eq_imp_length_eq)
  from m have "map (map ?g) (cacheLine c') ! nat s = map (map ?g) (cacheLine c) ! nat s"
    by (rule arg_cong)
  with b(2) len have ms: "map ?g (cacheLine c' ! nat s) = map ?g (cacheLine c ! nat s)"
    by simp
  then have len2: "length (cacheLine c' ! nat s) = length (cacheLine c ! nat s)"
    by (rule map_eq_imp_length_eq)
  from ms have "map ?g (cacheLine c' ! nat s) ! nat w = map ?g (cacheLine c ! nat s) ! nat w"
    by (rule arg_cong)
  with b(4) len2
  have "?g (cacheLine c' ! nat s ! nat w) = ?g (cacheLine c ! nat s ! nat w)"
    by simp
  with b len len2 show ?thesis
    by (auto simp: line_at_Inr_iff set_at_Inr_iff way_at_Inr_iff)
qed

lemma GetWay_touch_total:
  assumes "line_at c s w = Inr l" "cursor_at c s = Inr r" "r < INT_MAX" "order_of l < INT_MAX"
  shows "\<exists>c'. GetWay_touch c s w = Inr c'"
  using assms by (simp add: GetWay_touch_def incr_def upd_line_def)

lemma first_match:
  assumes "0 \<le> w" "w < n" "matches a (S ! nat w)"
  shows "\<exists>u. 0 \<le> u \<and> u < n \<and> matches a (S ! nat u) \<and>
             (\<forall>v. 0 \<le> v \<and> v < u \<longrightarrow> \<not> matches a (S ! nat v))"
proof -
  let ?P = "\<lambda>k. int k < n \<and> matches a (S ! k)"
  from assms have "?P (nat w)" by simp
  then have L: "?P (LEAST k. ?P k)"
    by (rule LeastI)
  have M: "\<not> ?P j" if "j < (LEAST k. ?P k)" for j
    using that by (rule not_less_Least)
  let ?u = "int (LEAST k. ?P k)"
  have "\<not> matches a (S ! nat v)" if "0 \<le> v" "v < ?u" for v
  proof -
    from that have "nat v < (LEAST k. ?P k)" by simp
    from M [OF this] that L show ?thesis by simp
  qed
  with L show ?thesis
    by (intro exI [of _ ?u]) simp
qed

lemma upd_line_cursor:
  assumes "upd_line c s w f = Inr c'"
  shows "cursor_at c' s' = cursor_at c s'"
  using upd_line_fields(4) [OF assms] by (simp add: cursor_at_def)

lemma cursor_at_put_cursor:
  "cursor_at c s = Inr r \<Longrightarrow> cursor_at (put_cursor c s v) s = Inr v"
  by (auto simp: cursor_at_def put_cursor_def split: if_splits)

section \<open>Facts about the two operations\<close>

lemma populate_Inr:
  assumes "populate bs flags a c st w = Inr c'"
  obtains l where "line_at c st w = Inr l"
    and "line_at c' st w = Inr (l\<lparr>deviceData := Some (fst bs), tag := a, valid := True\<rparr>)"
    and "memCopies c < INT_MAX" and "memCopies c' = memCopies c + 1"
    and "WriteTransfers c' =
           (if flags AND CL_MEM_COPY_HOST_PTR = CL_MEM_COPY_HOST_PTR
            then WriteTransfers c + 1 else WriteTransfers c)"
    and "ReadTransfers c' = ReadTransfers c"
    and "replacementLine c' = replacementLine c" and "policy c' = policy c"
    and "config c' = config c"
    and "c' = c\<lparr>memCopies := memCopies c + 1,
                 WriteTransfers := WriteTransfers c',
                 cacheLine := (cacheLine c)[nat st := (cacheLine c ! nat st)
                   [nat w := l\<lparr>deviceData := Some (fst bs), tag := a, valid := True\<rparr>]]\<rparr>"
proof -
  from assms obtain c1 m wt where
    c1: "upd_line c st w (\<lambda>l. l\<lparr>deviceData := Some (fst bs)\<rparr>) = Inr c1"
    and m: "incr (memCopies c1) = Inr m"
    and wt: "(if flags AND CL_MEM_COPY_HOST_PTR = CL_MEM_COPY_HOST_PTR
              then incr (WriteTransfers c1) else Inr (WriteTransfers c1)) = Inr wt"
    and c': "upd_line (c1\<lparr>memCopies := m, WriteTransfers := wt\<rparr>) st w
               (\<lambda>l. l\<lparr>tag := a, valid := True\<rparr>) = Inr c'"
    unfolding populate_def by (auto split: sum.splits)
  from c1 obtain l where l: "line_at c st w = Inr l"
    and c1e: "c1 = c\<lparr>cacheLine := (cacheLine c)[nat st := (cacheLine c ! nat st)
                   [nat w := l\<lparr>deviceData := Some (fst bs)\<rparr>]]\<rparr>"
    by (auto simp: upd_line_Inr_iff)
  from l have b: "0 \<le> st" "nat st < length (cacheLine c)" "0 \<le> w"
    "nat w < length (cacheLine c ! nat st)" "st < int (length (cacheLine c))"
    "w < int (length (cacheLine c ! nat st))"
    by (auto simp: line_at_Inr_iff set_at_Inr_iff way_at_Inr_iff)
  from m c1e have mm: "memCopies c < INT_MAX" "m = memCopies c + 1"
    by (auto simp: incr_Inr_iff)
  from wt c1e have ww: "wt = (if flags AND CL_MEM_COPY_HOST_PTR = CL_MEM_COPY_HOST_PTR
            then WriteTransfers c + 1 else WriteTransfers c)"
    by (auto simp: incr_Inr_iff split: if_splits)
  have l1: "line_at (c1\<lparr>memCopies := m, WriteTransfers := wt\<rparr>) st w
              = Inr (l\<lparr>deviceData := Some (fst bs)\<rparr>)"
    using b by (simp add: c1e line_at_def set_at_def way_at_def)
  from c' l1 have c'e: "c' = c\<lparr>memCopies := m, WriteTransfers := wt,
                 cacheLine := (cacheLine c)[nat st := (cacheLine c ! nat st)
                   [nat w := l\<lparr>deviceData := Some (fst bs), tag := a, valid := True\<rparr>]]\<rparr>"
    using b by (auto simp: upd_line_Inr_iff c1e)
  have l': "line_at c' st w = Inr (l\<lparr>deviceData := Some (fst bs), tag := a, valid := True\<rparr>)"
    using b by (simp add: c'e line_at_def set_at_def way_at_def)
  show thesis
    by (rule that [OF l l' mm(1)]) (simp_all add: c'e mm ww)
qed

lemma cached_True_iff:
  "cached flags a c st w = Inr True \<longleftrightarrow>
     flags AND CL_MEM_COPY_HOST_PTR = CL_MEM_COPY_HOST_PTR \<and>
     (\<exists>l. line_at c st w = Inr l \<and> matches a l)"
  by (auto simp: cached_def matches_def split: sum.splits)

lemma clCreateCacheBuffer_cases:
  assumes "clCreateCacheBuffer bs rnd flags a c = Inr r"
  obtains (fast) st w c1 l where
      "GetIndex (indexBitMask c) (addressBitShift c) a = Inr st"
      "GetWay a st c = Inr (w, c1)"
      "flags AND CL_MEM_COPY_HOST_PTR = CL_MEM_COPY_HOST_PTR"
      "line_at c1 st w = Inr l" "matches a l"
      "r = \<lparr>handle = deviceData l, errorcode_ret = None, trace = [], cache_after = c1\<rparr>"
  | (slow) st w c1 w' c2 tr c3 l where
      "GetIndex (indexBitMask c) (addressBitShift c) a = Inr st"
      "GetWay a st c = Inr (w, c1)"
      "cached flags a c1 st w = Inr False"
      "if w = - 1 then SetWay rnd st c1 = Inr (w', c2) \<and> tr = [Call_SetWay st]
       else w' = w \<and> c2 = c1 \<and> tr = []"
      "populate bs flags a c2 st w' = Inr c3"
      "line_at c3 st w' = Inr l"
      "r = \<lparr>handle = deviceData l, errorcode_ret = Some (snd bs),
            trace = tr @ [Call_clCreateBuffer (create_flags flags a) (dataSize c2) a],
            cache_after = c3\<rparr>"
proof -
  from assms obtain st where st: "GetIndex (indexBitMask c) (addressBitShift c) a = Inr st"
    unfolding clCreateCacheBuffer_def by (auto split: sum.splits)
  from assms st obtain w c1 where g: "GetWay a st c = Inr (w, c1)"
    unfolding clCreateCacheBuffer_def by (auto split: sum.splits)
  from assms st g obtain b where b: "cached flags a c1 st w = Inr b"
    unfolding clCreateCacheBuffer_def by (auto split: sum.splits)
  show thesis
  proof (cases b)
    case True
    with b have f: "flags AND CL_MEM_COPY_HOST_PTR = CL_MEM_COPY_HOST_PTR"
      and "\<exists>l. line_at c1 st w = Inr l \<and> matches a l"
      by (simp_all add: cached_True_iff)
    then obtain l where l: "line_at c1 st w = Inr l" "matches a l" by blast
    from assms st g b True l
    have "r = \<lparr>handle = deviceData l, errorcode_ret = None, trace = [], cache_after = c1\<rparr>"
      unfolding clCreateCacheBuffer_def by simp
    with st g f l show thesis by (rule fast)
  next
    case False
    with b have b': "cached flags a c1 st w = Inr False" by simp
    from assms st g b' obtain w' c2 tr where
      sel: "(if w = - 1
             then (case SetWay rnd st c1 of Inl e \<Rightarrow> Inl e
                   | Inr (w, c2) \<Rightarrow> Inr (w, c2, [Call_SetWay st]))
             else Inr (w, c1, [])) = Inr (w', c2, tr)"
      unfolding clCreateCacheBuffer_def by (simp split: sum.splits prod.splits)
    then have sel': "if w = - 1 then SetWay rnd st c1 = Inr (w', c2) \<and> tr = [Call_SetWay st]
       else w' = w \<and> c2 = c1 \<and> tr = []"
      by (auto split: if_splits sum.splits)
    from assms st g b' sel obtain c3 where p: "populate bs flags a c2 st w' = Inr c3"
      unfolding clCreateCacheBuffer_def by (simp split: sum.splits)
    from assms st g b' sel p obtain l where l: "line_at c3 st w' = Inr l"
      unfolding clCreateCacheBuffer_def by (simp split: sum.splits)
    from assms st g b' sel p l
    have "r = \<lparr>handle = deviceData l, errorcode_ret = Some (snd bs),
            trace = tr @ [Call_clCreateBuffer (create_flags flags a) (dataSize c2) a],
            cache_after = c3\<rparr>"
      unfolding clCreateCacheBuffer_def by simp
    with st g b' sel' p l show thesis by (rule slow)
  qed
qed

lemma clEnqueueReadCacheBuffer_cases:
  assumes "clEnqueueReadCacheBuffer rd a c = Inr r"
  obtains (hit) st w c1 l where
      "GetIndex (indexBitMask c) (addressBitShift c) a = Inr st"
      "GetWay a st c = Inr (w, c1)" "line_at c1 st w = Inr l" "matches a l"
      "memCopies c1 < INT_MAX" "ReadTransfers c1 < INT_MAX"
      "r = \<lparr>status = 0,
            rtrace = [Call_clEnqueueReadBuffer (deviceData l) (dataSize c1) a],
            rcache = c1\<lparr>memCopies := memCopies c1 + 1, ReadTransfers := ReadTransfers c1 + 1\<rparr>\<rparr>"
  | (miss) st w c1 l where
      "GetIndex (indexBitMask c) (addressBitShift c) a = Inr st"
      "GetWay a st c = Inr (w, c1)" "line_at c1 st w = Inr l" "\<not> matches a l"
      "r = \<lparr>status = 1, rtrace = [], rcache = c1\<rparr>"
proof -
  from assms obtain st where st: "GetIndex (indexBitMask c) (addressBitShift c) a = Inr st"
    unfolding clEnqueueReadCacheBuffer_def by (auto split: sum.splits)
  from assms st obtain w c1 where g: "GetWay a st c = Inr (w, c1)"
    unfolding clEnqueueReadCacheBuffer_def by (auto split: sum.splits)
  from assms st g obtain l where l: "line_at c1 st w = Inr l"
    unfolding clEnqueueReadCacheBuffer_def by (auto split: sum.splits)
  show thesis
  proof (cases "matches a l")
    case True
    with assms st g l have "memCopies c1 < INT_MAX \<and> ReadTransfers c1 < INT_MAX \<and>
      r = \<lparr>status = 0,
            rtrace = [Call_clEnqueueReadBuffer (deviceData l) (dataSize c1) a],
            rcache = c1\<lparr>memCopies := memCopies c1 + 1, ReadTransfers := ReadTransfers c1 + 1\<rparr>\<rparr>"
      unfolding clEnqueueReadCacheBuffer_def
      by (auto simp: matches_def incr_Inr_iff split: sum.splits)
    with st g l True show thesis by (intro hit) simp_all
  next
    case False
    with assms st g l have "r = \<lparr>status = 1, rtrace = [], rcache = c1\<rparr>"
      unfolding clEnqueueReadCacheBuffer_def by (auto simp: matches_def)
    with st g l False show thesis by (rule miss)
  qed
qed

lemma stamp_way_preserves:
  assumes "stamp_way c s w = Inr (w', c')"
  shows "w' = w" "contents c' = contents c" "memCopies c' = memCopies c"
    "ReadTransfers c' = ReadTransfers c" "WriteTransfers c' = WriteTransfers c"
    "policy c' = policy c" "config c' = config c" "dataSize c' = dataSize c"
proof -
  from assms obtain r where r: "cursor_at c s = Inr r"
    by (cases "cursor_at c s") (simp_all add: stamp_way_def)
  with assms have i: "incr r = Inr (r + 1)"
    by (cases "r < INT_MAX") (simp_all add: stamp_way_def incr_def)
  from assms r i obtain c'' where
    u': "upd_line (put_cursor c s (r + 1)) s w (set_order (r + 1)) = Inr c''"
    by (cases "upd_line (put_cursor c s (r + 1)) s w (set_order (r + 1))")
      (simp_all add: stamp_way_def)
  with assms r i have w: "w' = w" and "c'' = c'"
    by (simp_all add: stamp_way_def)
  with u' have u: "upd_line (put_cursor c s (r + 1)) s w (set_order (r + 1)) = Inr c'"
    by simp
  from upd_line_contents [OF u] upd_line_fields [OF u] w
  show "w' = w" "contents c' = contents c" "memCopies c' = memCopies c"
    "ReadTransfers c' = ReadTransfers c" "WriteTransfers c' = WriteTransfers c"
    "policy c' = policy c" "config c' = config c" "dataSize c' = dataSize c"
    by simp_all
qed

lemma reset_way_preserves:
  assumes "reset_way c s w = Inr (w', c')"
  shows "w' = w" "contents c' = contents c" "memCopies c' = memCopies c"
    "ReadTransfers c' = ReadTransfers c" "WriteTransfers c' = WriteTransfers c"
    "policy c' = policy c" "config c' = config c" "dataSize c' = dataSize c"
    "replacementLine c' = replacementLine c"
proof -
  from assms have u: "upd_line c s w (set_order 1) = Inr c'" and w: "w' = w"
    by (cases "upd_line c s w (set_order 1)"; simp add: reset_way_def)+
  from upd_line_contents [OF u] upd_line_fields [OF u] w
  show "w' = w" "contents c' = contents c" "memCopies c' = memCopies c"
    "ReadTransfers c' = ReadTransfers c" "WriteTransfers c' = WriteTransfers c"
    "policy c' = policy c" "config c' = config c" "dataSize c' = dataSize c"
    "replacementLine c' = replacementLine c"
    by simp_all
qed

lemma SetWay_preserves:
  assumes "SetWay rnd s c = Inr (w, c')"
  shows "contents c' = contents c" "memCopies c' = memCopies c"
    "ReadTransfers c' = ReadTransfers c" "WriteTransfers c' = WriteTransfers c"
    "policy c' = policy c" "config c' = config c" "dataSize c' = dataSize c"
proof -
  have "contents c' = contents c \<and> memCopies c' = memCopies c \<and>
    ReadTransfers c' = ReadTransfers c \<and> WriteTransfers c' = WriteTransfers c \<and>
    policy c' = policy c \<and> config c' = config c \<and> dataSize c' = dataSize c"
  proof (cases "policy c")
    case random_RP
    with assms have "c' = c"
      by (auto simp: SetWay_def split: sum.splits option.splits)
    then show ?thesis by simp
  next
    case fifo_RP
    with assms obtain v where "c' = put_cursor c s v"
      by (auto simp: SetWay_def split: sum.splits)
    then show ?thesis by simp
  next
    case lru_RP
    with assms obtain rw where "stamp_way c s rw = Inr (w, c')"
      by (auto simp: SetWay_def split: sum.splits)
    from stamp_way_preserves [OF this] show ?thesis by simp
  next
    case mru_RP
    with assms obtain rw where "stamp_way c s rw = Inr (w, c')"
      by (auto simp: SetWay_def split: sum.splits)
    from stamp_way_preserves [OF this] show ?thesis by simp
  next
    case lfu_RP
    with assms obtain rw where "reset_way c s rw = Inr (w, c')"
      by (auto simp: SetWay_def split: sum.splits)
    from reset_way_preserves [OF this] show ?thesis by simp
  next
    case mfu_RP
    with assms obtain rw where "reset_way c s rw = Inr (w, c')"
      by (auto simp: SetWay_def split: sum.splits)
    from reset_way_preserves [OF this] show ?thesis by simp
  qed
  then show "contents c' = contents c" "memCopies c' = memCopies c"
    "ReadTransfers c' = ReadTransfers c" "WriteTransfers c' = WriteTransfers c"
    "policy c' = policy c" "config c' = config c" "dataSize c' = dataSize c"
    by simp_all
qed

text \<open>The effect of either operation on the counters.\<close>

lemma resolve_counters:
  assumes "clCreateCacheBuffer bs rnd flags a c = Inr r"
  shows "memCopies (cache_after r) = memCopies c + (if errorcode_ret r = None then 0 else 1)"
    and "WriteTransfers (cache_after r) = WriteTransfers c +
           (if errorcode_ret r \<noteq> None \<and> flags AND CL_MEM_COPY_HOST_PTR = CL_MEM_COPY_HOST_PTR
            then 1 else 0)"
    and "ReadTransfers (cache_after r) = ReadTransfers c"
    and "errorcode_ret r = None \<or> errorcode_ret r = Some (snd bs)"
    and "errorcode_ret r = None \<longleftrightarrow> (\<forall>f n b. Call_clCreateBuffer f n b \<notin> set (trace r))"
proof -
  have "memCopies (cache_after r) = memCopies c + (if errorcode_ret r = None then 0 else 1) \<and>
    WriteTransfers (cache_after r) = WriteTransfers c +
           (if errorcode_ret r \<noteq> None \<and> flags AND CL_MEM_COPY_HOST_PTR = CL_MEM_COPY_HOST_PTR
            then 1 else 0) \<and>
    ReadTransfers (cache_after r) = ReadTransfers c \<and>
    (errorcode_ret r = None \<or> errorcode_ret r = Some (snd bs)) \<and>
    (errorcode_ret r = None \<longleftrightarrow> (\<forall>f n b. Call_clCreateBuffer f n b \<notin> set (trace r)))"
    using assms
  proof (cases rule: clCreateCacheBuffer_cases)
    case (fast st w c1 l)
    with GetWay_preserves [OF fast(2)] show ?thesis by simp
  next
    case (slow st w c1 w' c2 tr c3 l)
    have c2: "memCopies c2 = memCopies c \<and> WriteTransfers c2 = WriteTransfers c \<and>
              ReadTransfers c2 = ReadTransfers c"
    proof (cases "w = - 1")
      case True
      with slow(4) have "SetWay rnd st c1 = Inr (w', c2)" by simp
      from SetWay_preserves [OF this] GetWay_preserves [OF slow(2)] show ?thesis by simp
    next
      case False
      with slow(4) GetWay_preserves [OF slow(2)] show ?thesis by simp
    qed
    from slow(5) show ?thesis
    proof (cases rule: populate_Inr)
      case (1 k)
      with c2 slow(7) show ?thesis by auto
    qed
  qed
  then show "memCopies (cache_after r) = memCopies c + (if errorcode_ret r = None then 0 else 1)"
    and "WriteTransfers (cache_after r) = WriteTransfers c +
           (if errorcode_ret r \<noteq> None \<and> flags AND CL_MEM_COPY_HOST_PTR = CL_MEM_COPY_HOST_PTR
            then 1 else 0)"
    and "ReadTransfers (cache_after r) = ReadTransfers c"
    and "errorcode_ret r = None \<or> errorcode_ret r = Some (snd bs)"
    and "errorcode_ret r = None \<longleftrightarrow> (\<forall>f n b. Call_clCreateBuffer f n b \<notin> set (trace r))"
    by blast+
qed

lemma readBack_counters:
  assumes "clEnqueueReadCacheBuffer rd a c = Inr r"
  shows "memCopies (rcache r) = memCopies c + (if status r = 0 then 1 else 0)"
    and "ReadTransfers (rcache r) = ReadTransfers c + (if status r = 0 then 1 else 0)"
    and "WriteTransfers (rcache r) = WriteTransfers c"
    and "contents (rcache r) = contents c"
    and "status r = 0 \<or> status r = 1"
    and "status r = 0 \<longleftrightarrow> rtrace r \<noteq> []"
proof -
  have "memCopies (rcache r) = memCopies c + (if status r = 0 then 1 else 0) \<and>
    ReadTransfers (rcache r) = ReadTransfers c + (if status r = 0 then 1 else 0) \<and>
    WriteTransfers (rcache r) = WriteTransfers c \<and> contents (rcache r) = contents c \<and>
    (status r = 0 \<or> status r = 1) \<and> (status r = 0 \<longleftrightarrow> rtrace r \<noteq> [])"
    using assms
  proof (cases rule: clEnqueueReadCacheBuffer_cases)
    case (hit st w c1 l)
    with GetWay_preserves [OF hit(2)] show ?thesis by (simp add: contents_def)
  next
    case (miss st w c1 l)
    with GetWay_preserves [OF miss(2)] show ?thesis by simp
  qed
  then show "memCopies (rcache r) = memCopies c + (if status r = 0 then 1 else 0)"
    and "ReadTransfers (rcache r) = ReadTransfers c + (if status r = 0 then 1 else 0)"
    and "WriteTransfers (rcache r) = WriteTransfers c"
    and "contents (rcache r) = contents c"
    and "status r = 0 \<or> status r = 1"
    and "status r = 0 \<longleftrightarrow> rtrace r \<noteq> []"
    by blast+
qed

lemma step_counters:
  assumes "step x c = Inr c'"
  shows "memCopies c \<le> memCopies c' \<and> ReadTransfers c \<le> ReadTransfers c' \<and>
         WriteTransfers c \<le> WriteTransfers c' \<and>
         (WriteTransfers c' - WriteTransfers c) + (ReadTransfers c' - ReadTransfers c)
           \<le> memCopies c' - memCopies c"
proof (cases x)
  case (Resolve bs rnd flags a)
  with assms obtain r where r: "clCreateCacheBuffer bs rnd flags a c = Inr r"
    and c': "c' = cache_after r"
    by (auto split: sum.splits)
  from resolve_counters(1,2,3) [OF r] c' show ?thesis
    by (simp split: if_splits)
next
  case (ReadBack rd a)
  with assms obtain r where r: "clEnqueueReadCacheBuffer rd a c = Inr r"
    and c': "c' = rcache r"
    by (auto split: sum.splits)
  from readBack_counters(1,2,3) [OF r] c' show ?thesis
    by (simp split: if_splits)
qed

lemma run_counters:
  "run xs c = Inr c' \<Longrightarrow>
     memCopies c \<le> memCopies c' \<and> ReadTransfers c \<le> ReadTransfers c' \<and>
     WriteTransfers c \<le> WriteTransfers c' \<and>
     (WriteTransfers c' - WriteTransfers c) + (ReadTransfers c' - ReadTransfers c)
       \<le> memCopies c' - memCopies c"
proof (induction xs arbitrary: c)
  case Nil
  then show ?case by simp
next
  case (Cons x xs)
  from Cons.prems obtain c1 where s: "step x c = Inr c1" and r: "run xs c1 = Inr c'"
    by (auto split: sum.splits)
  from step_counters [OF s] Cons.IH [OF r] show ?case
    by linarith
qed

lemma CreateCache_counters:
  assumes "CreateCache n d t cfg pol = Inr c"
  shows "memCopies c = 0 \<and> ReadTransfers c = 0 \<and> WriteTransfers c = 0"
  using assms by (auto simp: CreateCache_def split: sum.splits prod.splits if_splits)

lemma line_at_minus_one: "line_at c st (- 1) = Inl OutOfBounds"
  by (simp add: line_at_def set_at_def way_at_def)

lemma smod_nonneg: "0 \<le> a \<Longrightarrow> 0 \<le> (a::int) smod b"
  by (cases "b = 0") (simp_all add: smod_int_alt_def sgn_if)

lemma SetWay_fifo:
  assumes "policy c = fifo_RP" "SetWay rnd s c = Inr (w, c')"
  obtains r where "cursor_at c s = Inr r" "r < INT_MAX" "numberOfLinesPerSet c \<noteq> 0"
    "w = (r + 1) smod numberOfLinesPerSet c" "c' = put_cursor c s w"
proof -
  from assms obtain S where S: "set_at c s = Inr S"
    by (cases "set_at c s") (simp_all add: SetWay_def)
  from assms S obtain r where r: "cursor_at c s = Inr r"
    by (cases "cursor_at c s") (simp_all add: SetWay_def)
  from assms S r have i: "r < INT_MAX"
    by (cases "r < INT_MAX") (simp_all add: SetWay_def incr_def)
  from assms S r i have n: "numberOfLinesPerSet c \<noteq> 0"
    by (cases "numberOfLinesPerSet c = 0") (simp_all add: SetWay_def incr_def c_rem_def)
  from assms S r i n have "w = (r + 1) smod numberOfLinesPerSet c" "c' = put_cursor c s w"
    by (auto simp: SetWay_def incr_def c_rem_def)
  with r i n show thesis by (rule that)
qed

lemma GetWay_fifo:
  assumes "policy c = fifo_RP \<or> policy c = random_RP" "GetWay a s c = Inr (w, c')"
  shows "c' = c"
proof -
  from GetWay_Inr [OF assms(2)]
  consider "c' = c" | "GetWay_touch c s w = Inr c'"
    by blast
  then show ?thesis
  proof cases
    case 1
    then show ?thesis .
  next
    case 2
    with assms(1) show ?thesis
      by (auto simp: GetWay_touch_def)
  qed
qed

lemma step_fifo_invariant:
  assumes "policy c = fifo_RP" "0 < numberOfLinesPerSet c"
    and "\<forall>x \<in> set (replacementLine c). 0 \<le> x \<and> x < numberOfLinesPerSet c"
    and "step x c = Inr c'"
  shows "policy c' = fifo_RP \<and> numberOfLinesPerSet c' = numberOfLinesPerSet c \<and>
         (\<forall>x \<in> set (replacementLine c'). 0 \<le> x \<and> x < numberOfLinesPerSet c')"
proof (cases x)
  case (ReadBack rd a)
  with assms(4) obtain r where r: "clEnqueueReadCacheBuffer rd a c = Inr r" and c': "c' = rcache r"
    by (auto split: sum.splits)
  from r have "policy (rcache r) = policy c \<and> replacementLine (rcache r) = replacementLine c \<and>
               numberOfLinesPerSet (rcache r) = numberOfLinesPerSet c"
  proof (cases rule: clEnqueueReadCacheBuffer_cases)
    case (hit st w c1 l)
    with GetWay_fifo [OF _ hit(2)] assms(1) show ?thesis by simp
  next
    case (miss st w c1 l)
    with GetWay_fifo [OF _ miss(2)] assms(1) show ?thesis by simp
  qed
  with assms(1,3) c' show ?thesis by simp
next
  case (Resolve bs rnd flags a)
  with assms(4) obtain r where r: "clCreateCacheBuffer bs rnd flags a c = Inr r"
    and c': "c' = cache_after r"
    by (auto split: sum.splits)
  from r show ?thesis
  proof (cases rule: clCreateCacheBuffer_cases)
    case (fast st w c1 l)
    with GetWay_fifo [OF _ fast(2)] assms(1,3) c' show ?thesis by simp
  next
    case (slow st w c1 w' c2 tr c3 l)
    from GetWay_fifo [OF _ slow(2)] assms(1) have c1: "c1 = c" by simp
    have c2: "policy c2 = fifo_RP \<and> numberOfLinesPerSet c2 = numberOfLinesPerSet c \<and>
              (\<forall>x \<in> set (replacementLine c2). 0 \<le> x \<and> x < numberOfLinesPerSet c)"
    proof (cases "w = - 1")
      case False
      with slow(4) c1 assms(1,3) show ?thesis by simp
    next
      case True
      with slow(4) c1 have sw: "SetWay rnd st c = Inr (w', c2)" by simp
      from assms(1) sw show ?thesis
      proof (cases rule: SetWay_fifo)
        case (1 q)
        from 1(1) assms(3) have "0 \<le> q"
          by (auto simp: cursor_at_def split: if_splits)
        then have q1: "0 \<le> q + 1" by simp
        from q1 have "0 \<le> w'"
          unfolding 1(4) by (rule smod_nonneg)
        moreover from q1 assms(2) have "w' < numberOfLinesPerSet c"
          unfolding 1(4) by (rule smod_int_compares(1))
        moreover
        have "set ((replacementLine c)[nat st := w']) \<subseteq> insert w' (set (replacementLine c))"
          by (rule set_update_subset_insert)
        ultimately show ?thesis
          using assms(1,3) 1(5) by (auto simp: put_cursor_def)
      qed
    qed
    from slow(5) show ?thesis
    proof (cases rule: populate_Inr)
      case (1 k)
      from arg_cong [OF 1(10), of numberOfLinesPerSet]
      have "numberOfLinesPerSet c3 = numberOfLinesPerSet c2"
        by simp
      with 1(7,8) c2 slow(7) c' show ?thesis by simp
    qed
  qed
qed

lemma run_fifo_invariant:
  "policy c = fifo_RP \<Longrightarrow> 0 < numberOfLinesPerSet c \<Longrightarrow>
   \<forall>x \<in> set (replacementLine c). 0 \<le> x \<and> x < numberOfLinesPerSet c \<Longrightarrow> run xs c = Inr c' \<Longrightarrow>
     policy c' = fifo_RP \<and> numberOfLinesPerSet c' = numberOfLinesPerSet c \<and>
     (\<forall>x \<in> set (replacementLine c'). 0 \<le> x \<and> x < numberOfLinesPerSet c')"
proof (induction xs arbitrary: c)
  case Nil
  then show ?case by simp
next
  case (Cons x xs)
  from Cons.prems(4) obtain c1 where s: "step x c = Inr c1" and r: "run xs c1 = Inr c'"
    by (auto split: sum.splits)
  from step_fifo_invariant [OF Cons.prems(1,2,3) s]
  have 1: "policy c1 = fifo_RP" "0 < numberOfLinesPerSet c1"
    "\<forall>x \<in> set (replacementLine c1). 0 \<le> x \<and> x < numberOfLinesPerSet c1"
    and n: "numberOfLinesPerSet c1 = numberOfLinesPerSet c"
    using Cons.prems(2) by auto
  from Cons.IH [OF 1 r] n show ?case
    by auto
qed

lemma CreateCache_fresh:
  assumes "CreateCache n d t cfg pol = Inr c"
  shows "policy c = pol" "config c = cfg" "\<forall>x \<in> set (replacementLine c). x = 0"
  using assms by (auto simp: CreateCache_def split: sum.splits prod.splits if_splits)


lemma line_at_policy_cursor [simp]:
  "line_at (c\<lparr>policy := p, replacementLine := q\<rparr>) st w = line_at c st w"
  by (simp add: line_at_def set_at_def)

lemma set_at_policy_cursor [simp]:
  "set_at (c\<lparr>policy := p, replacementLine := q\<rparr>) st = set_at c st"
  by (simp add: set_at_def)

lemma cached_policy_cursor [simp]:
  "cached flags a (c\<lparr>policy := p, replacementLine := q\<rparr>) st w = cached flags a c st w"
  by (simp add: cached_def)


lemma populate_unfolded:
  "populate bs flags a c st w =
     (case line_at c st w of
        Inl e \<Rightarrow> Inl e
      | Inr l \<Rightarrow>
          (case incr (memCopies c) of
             Inl e \<Rightarrow> Inl e
           | Inr m \<Rightarrow>
               (case (if flags AND CL_MEM_COPY_HOST_PTR = CL_MEM_COPY_HOST_PTR
                      then incr (WriteTransfers c) else Inr (WriteTransfers c)) of
                  Inl e \<Rightarrow> Inl e
                | Inr wt \<Rightarrow>
                    Inr (c\<lparr>memCopies := m, WriteTransfers := wt,
                           cacheLine := (cacheLine c)[nat st := (cacheLine c ! nat st)
                             [nat w := l\<lparr>deviceData := Some (fst bs), tag := a,
                                         valid := True\<rparr>]]\<rparr>))))"
  by (auto simp: populate_def upd_line_def line_at_def set_at_def way_at_def incr_def
      split: sum.splits)

lemma populate_answer:
  "map_sum id counters (populate bs flags a c st w) =
   map_sum id counters (populate bs' flags a c st w)"
  by (simp add: populate_unfolded counters_def split: sum.splits)

lemma populate_line_at:
  "populate bs flags a c st w = Inr c3 \<Longrightarrow> \<exists>l. line_at c3 st w = Inr l"
  by (erule populate_Inr) simp

lemma resolve_answer:
  "map_sum id (\<lambda>r. (counters (cache_after r), trace r))
     (clCreateCacheBuffer bs rnd flags a c) =
   map_sum id (\<lambda>r. (counters (cache_after r), trace r))
     (clCreateCacheBuffer bs' rnd flags a c)"
proof (cases "GetIndex (indexBitMask c) (addressBitShift c) a")
  case (Inl e)
  then show ?thesis by (simp add: clCreateCacheBuffer_def)
next
  case st: (Inr st)
  show ?thesis
  proof (cases "GetWay a st c")
    case (Inl e)
    with st show ?thesis by (simp add: clCreateCacheBuffer_def)
  next
    case (Inr g)
    obtain way c1 where g: "g = (way, c1)" by (cases g)
    with Inr have gw: "GetWay a st c = Inr (way, c1)" by simp
    show ?thesis
    proof (cases "cached flags a c1 st way")
      case (Inl e)
      with st gw show ?thesis by (simp add: clCreateCacheBuffer_def)
    next
      case b: (Inr b)
      show ?thesis
      proof (cases b)
        case True
        with st gw b show ?thesis by (simp add: clCreateCacheBuffer_def)
      next
        case False
        let ?sel = "if way = - 1
                    then (case SetWay rnd st c1 of
                            Inl e \<Rightarrow> Inl e
                          | Inr (w, c2) \<Rightarrow> Inr (w, c2, [Call_SetWay st]))
                    else Inr (way, c1, [])"
        show ?thesis
        proof (cases ?sel)
          case (Inl e)
          with st gw b False show ?thesis by (simp add: clCreateCacheBuffer_def)
        next
          case (Inr q)
          obtain w' c2 tr where q: "q = (w', c2, tr)" by (cases q)
          with Inr have sel: "?sel = Inr (w', c2, tr)" by simp
          note pa = populate_answer [of bs flags a c2 st w' bs']
          show ?thesis
          proof (cases "populate bs flags a c2 st w'")
            case (Inl e)
            with pa have "populate bs' flags a c2 st w' = Inl e"
              by (cases "populate bs' flags a c2 st w'") simp_all
            with Inl st gw b False sel show ?thesis
              by (simp add: clCreateCacheBuffer_def)
          next
            case c3: (Inr c3)
            with pa obtain c3' where c3': "populate bs' flags a c2 st w' = Inr c3'"
              and k: "counters c3' = counters c3"
              by (cases "populate bs' flags a c2 st w'") simp_all
            from populate_line_at [OF c3] obtain l where l: "line_at c3 st w' = Inr l" ..
            from populate_line_at [OF c3'] obtain l' where l': "line_at c3' st w' = Inr l'" ..
            have "clCreateCacheBuffer bs rnd flags a c =
                    Inr \<lparr>handle = deviceData l, errorcode_ret = Some (snd bs),
                         trace = tr @ [Call_clCreateBuffer (create_flags flags a) (dataSize c2) a],
                         cache_after = c3\<rparr>"
              using st gw b False sel c3 l by (simp add: clCreateCacheBuffer_def)
            moreover have "clCreateCacheBuffer bs' rnd flags a c =
                    Inr \<lparr>handle = deviceData l', errorcode_ret = Some (snd bs'),
                         trace = tr @ [Call_clCreateBuffer (create_flags flags a) (dataSize c2) a],
                         cache_after = c3'\<rparr>"
              using st gw b False sel c3' l' by (simp add: clCreateCacheBuffer_def)
            ultimately show ?thesis
              using k by simp
          qed
        qed
      qed
    qed
  qed
qed

lemma readBack_answer:
  "clEnqueueReadCacheBuffer rd a c = clEnqueueReadCacheBuffer rd' a c"
  by (simp add: clEnqueueReadCacheBuffer_def)

lemma resolve_associative:
  assumes "config c \<noteq> direct_mapped" "clCreateCacheBuffer bs rnd flags a c = Inr r"
  shows "WriteTransfers (cache_after r) = WriteTransfers c \<and> config (cache_after r) = config c"
  using assms(2)
proof (cases rule: clCreateCacheBuffer_cases)
  case (fast st w c1 l)
  with GetWay_preserves [OF fast(2)] show ?thesis by simp
next
  case (slow st w c1 w' c2 tr c3 l)
  have nf: "flags AND CL_MEM_COPY_HOST_PTR \<noteq> CL_MEM_COPY_HOST_PTR"
  proof
    assume f: "flags AND CL_MEM_COPY_HOST_PTR = CL_MEM_COPY_HOST_PTR"
    with slow(3) obtain k where k: "line_at c1 st w = Inr k" and nm: "\<not> matches a k"
      by (auto simp: cached_def matches_def split: sum.splits)
    from k have "w \<noteq> - 1" by (auto simp: line_at_minus_one)
    with GetWay_Inr [OF slow(2)] assms(1) obtain l0 where
      l0: "line_at c st w = Inr l0" "matches a l0"
      by blast
    from contents_line_at [OF GetWay_preserves(1) [OF slow(2)] k] l0 nm show False
      by (auto simp: matches_def)
  qed
  from resolve_counters(2) [OF assms(2)] nf
  have 1: "WriteTransfers (cache_after r) = WriteTransfers c" by simp
  have c2: "config c2 = config c"
  proof (cases "w = - 1")
    case True
    with slow(4) have "SetWay rnd st c1 = Inr (w', c2)" by simp
    from SetWay_preserves(6) [OF this] GetWay_preserves(6) [OF slow(2)] show ?thesis by simp
  next
    case False
    with slow(4) GetWay_preserves(6) [OF slow(2)] show ?thesis by simp
  qed
  from slow(5) have "config c3 = config c2"
    by (rule populate_Inr)
  with 1 c2 slow(7) show ?thesis by simp
qed

lemma readBack_config:
  assumes "clEnqueueReadCacheBuffer rd a c = Inr r"
  shows "config (rcache r) = config c"
  using assms
proof (cases rule: clEnqueueReadCacheBuffer_cases)
  case (hit st w c1 l)
  with GetWay_preserves(6) [OF hit(2)] show ?thesis by simp
next
  case (miss st w c1 l)
  with GetWay_preserves(6) [OF miss(2)] show ?thesis by simp
qed

lemma run_associative:
  "config c \<noteq> direct_mapped \<Longrightarrow> run xs c = Inr c' \<Longrightarrow>
     WriteTransfers c' = WriteTransfers c \<and> config c' = config c"
proof (induction xs arbitrary: c)
  case Nil
  then show ?case by simp
next
  case (Cons x xs)
  from Cons.prems(2) obtain c1 where s: "step x c = Inr c1" and r: "run xs c1 = Inr c'"
    by (auto split: sum.splits)
  have "WriteTransfers c1 = WriteTransfers c \<and> config c1 = config c"
  proof (cases x)
    case (Resolve bs rnd flags a)
    with s obtain q where q: "clCreateCacheBuffer bs rnd flags a c = Inr q" "c1 = cache_after q"
      by (auto split: sum.splits)
    from resolve_associative [OF Cons.prems(1) q(1)] q(2) show ?thesis by simp
  next
    case (ReadBack rd a)
    with s obtain q where q: "clEnqueueReadCacheBuffer rd a c = Inr q" "c1 = rcache q"
      by (auto split: sum.splits)
    from readBack_config [OF q(1)] readBack_counters(3) [OF q(1)] q(2) show ?thesis by simp
  qed
  with Cons.IH [OF _ r] Cons.prems(1) show ?case by simp
qed

section \<open>The example caches are caches of the program\<close>

lemma direct_fresh_created:
  "CreateCache 4 64 32 direct_mapped lru_RP = Inr direct_fresh"
  by code_simp

lemma direct_one_reached:
  "run [Resolve (100, 0) 0 (CL_MEM_READ_WRITE OR CL_MEM_COPY_HOST_PTR) 64] direct_fresh
     = Inr direct_one"
  by code_simp

lemma two_way_fresh_created:
  "CreateCache 4 64 32 two_way lru_RP = Inr two_way_fresh"
  by code_simp

lemma two_way_one_reached:
  "run [Resolve (100, 0) 0 CL_MEM_READ_WRITE NULL] two_way_fresh = Inr two_way_one"
  by code_simp

lemma two_way_fifo_created:
  "CreateCache 4 64 32 two_way fifo_RP = Inr two_way_fifo"
  by code_simp

section \<open>The address bit shift\<close>

lemma smod_nonneg_eq: "0 \<le> a \<Longrightarrow> 0 < b \<Longrightarrow> (a::int) smod b = a mod b"
  by (simp add: smod_int_alt_def sgn_if)

lemma shift_loop_nonpos: "d \<le> 0 \<Longrightarrow> shift_loop d 0 = Inr 0"
  by (subst shift_loop.simps) simp

lemma shift_loop_step:
  assumes "0 \<le> k" "k < d" "k + 1 \<le> 30"
  shows "shift_loop d k =
           (if d mod 2 ^ nat (k + 1) \<noteq> 0 then Inr k else shift_loop d (k + 1))"
proof -
  have "pow2_int (k + 1) = Inr (2 ^ nat (k + 1))"
    using assms by (simp add: pow2_int_def)
  moreover have "c_rem d (2 ^ nat (k + 1)) = Inr (d mod 2 ^ nat (k + 1))"
    using assms by (simp add: c_rem_def smod_nonneg_eq)
  ultimately show ?thesis
    using assms by (subst shift_loop.simps) simp
qed

lemma shift_loop_valuation:
  "shift_loop d k = Inr r \<Longrightarrow> 0 \<le> k \<Longrightarrow> 0 < d \<Longrightarrow> 2 ^ nat k dvd d \<Longrightarrow>
     k \<le> r \<and> 2 ^ nat r dvd d \<and> \<not> 2 ^ (nat r + 1) dvd d"
proof (induction d k rule: shift_loop.induct)
  case (1 d k)
  show ?case
  proof (cases "k < d")
    case False
    have "nat k < 2 ^ nat k"
      by (rule less_exp)
    then have "int (nat k) < int (2 ^ nat k)"
      by (simp only: of_nat_less_iff)
    then have "int (nat k) < 2 ^ nat k"
      by simp
    with "1.prems"(2) have "k < 2 ^ nat k"
      by simp
    moreover from "1.prems"(4) "1.prems"(3) have "(2::int) ^ nat k \<le> d"
      by (rule_tac zdvd_imp_le) auto
    ultimately show ?thesis
      using False by simp
  next
    case True
    then have k30: "k + 1 \<le> 30"
      using "1.prems"(1) by (subst (asm) shift_loop.simps) (auto simp: pow2_int_def split: if_splits)
    note unfold = shift_loop_step [OF "1.prems"(2) True k30]
    have p: "pow2_int (k + 1) = Inr (2 ^ nat (k + 1))"
      using k30 "1.prems"(2) by (simp add: pow2_int_def)
    have r: "c_rem d (2 ^ nat (k + 1)) = Inr (d mod 2 ^ nat (k + 1))"
      using "1.prems"(3) by (simp add: c_rem_def smod_nonneg_eq)
    have nk: "nat (k + 1) = nat k + 1"
      using "1.prems"(2) by simp
    show ?thesis
    proof (cases "d mod 2 ^ nat (k + 1) = 0")
      case True
      then have dv: "(2::int) ^ nat (k + 1) dvd d"
        by (simp add: dvd_eq_mod_eq_0)
      have "shift_loop d (k + 1) = Inr r"
        using "1.prems"(1) unfold True by simp
      from "1.IH" [OF \<open>k < d\<close> p r _ this _ "1.prems"(3) dv] True "1.prems"(2)
      show ?thesis by simp
    next
      case False
      then have "r = k"
        using "1.prems"(1) unfold by simp
      moreover from False have "\<not> (2::int) ^ (nat k + 1) dvd d"
        using nk by (simp add: dvd_eq_mod_eq_0)
      ultimately show ?thesis
        using "1.prems"(4) by simp
    qed
  qed
qed

lemma clog2_le: "n \<le> 2 ^ k \<Longrightarrow> clog2 n \<le> k"
proof (induction k arbitrary: n)
  case 0
  then show ?case by (subst clog2.simps) simp
next
  case (Suc k)
  show ?case
  proof (cases "n \<le> 1")
    case True
    then show ?thesis by (subst clog2.simps) simp
  next
    case False
    from Suc.prems have "(n + 1) div 2 \<le> 2 ^ k" by simp
    from Suc.IH [OF this] False show ?thesis
      by (subst clog2.simps) simp
  qed
qed

lemma ceil_log2_bound:
  assumes "1 \<le> n" "n \<le> INT_MAX"
  shows "\<exists>l. ceil_log2 n = Inr l \<and> 0 \<le> l \<and> l \<le> 31"
proof -
  from assms(2) have "nat n \<le> 2 ^ 31"
    by (simp add: INT_MAX_def)
  then have "clog2 (nat n) \<le> 31"
    by (rule clog2_le)
  with assms(1) show ?thesis
    by (simp add: ceil_log2_def)
qed

lemma mask_of_returns: "l \<le> 31 \<Longrightarrow> \<exists>m. mask_of l = Inr m"
  by (simp add: mask_of_def)

lemma shift_loop_fault:
  "shift_loop d k = Inl e \<Longrightarrow> 0 \<le> k \<Longrightarrow> 0 < d \<Longrightarrow> 2 ^ nat k dvd d \<Longrightarrow> (2::int) ^ 30 dvd d"
proof (induction d k rule: shift_loop.induct)
  case (1 d k)
  show ?case
  proof (cases "k < d")
    case False
    with "1.prems"(1) show ?thesis
      by (subst (asm) shift_loop.simps) simp
  next
    case True
    show ?thesis
    proof (cases "k + 1 \<le> 30")
      case False
      with "1.prems"(2) have "30 \<le> nat k" by simp
      then have "(2::int) ^ 30 dvd 2 ^ nat k"
        by (rule le_imp_power_dvd)
      with "1.prems"(4) show ?thesis
        by (blast intro: dvd_trans)
    next
      case k30: True
      note unfold = shift_loop_step [OF "1.prems"(2) True k30]
      have p: "pow2_int (k + 1) = Inr (2 ^ nat (k + 1))"
        using k30 "1.prems"(2) by (simp add: pow2_int_def)
      have r: "c_rem d (2 ^ nat (k + 1)) = Inr (d mod 2 ^ nat (k + 1))"
        using "1.prems"(3) by (simp add: c_rem_def smod_nonneg_eq)
      from "1.prems"(1) unfold have z: "d mod 2 ^ nat (k + 1) = 0"
        and rec: "shift_loop d (k + 1) = Inl e"
        by (simp_all split: if_splits)
      from z have dv: "(2::int) ^ nat (k + 1) dvd d"
        by (simp add: dvd_eq_mod_eq_0)
      from "1.IH" [OF True p r _ rec _ "1.prems"(3) dv] z "1.prems"(2) show ?thesis
        by simp
    qed
  qed
qed

lemma shift_loop_returns:
  assumes "d \<le> INT_MAX" "d \<noteq> 2 ^ 30"
  shows "\<exists>s. shift_loop d 0 = Inr s"
proof (cases "d \<le> 0")
  case True
  then show ?thesis by (simp add: shift_loop_nonpos)
next
  case False
  show ?thesis
  proof (cases "shift_loop d 0")
    case (Inr s)
    then show ?thesis by simp
  next
    case (Inl e)
    from shift_loop_fault [OF Inl] False have "(2::int) ^ 30 dvd d"
      by simp
    then obtain m where m: "d = 2 ^ 30 * m" ..
    with False assms have "0 < m" "m < 2" "m \<noteq> 1"
      by (simp_all add: INT_MAX_def zero_less_mult_iff)
    then show ?thesis by simp
  qed
qed

lemma CreateCache_shift:
  "CreateCache n d t cfg pol = Inr c \<Longrightarrow> shift_loop d 0 = Inr (addressBitShift c)"
  by (auto simp: CreateCache_def split: sum.splits if_splits prod.splits)

text \<open>
  C3, as the specification words it: \<open>addressBitShift\<close> would be the largest \<open>k\<close> with
  \<open>lineDataSize\<close> divisible by \<open>2 ^ (k + 1)\<close>. For a line of 64 bytes the constructor
  computes 6, as the specification's own example says, and 64 is not divisible by
  \<open>2 ^ (6 + 1)\<close>: the shift is one more than the worded bound.
\<close>

theorem C3_shift_64_not_divisible:
  "map_sum id addressBitShift (CreateCache 4 64 32 direct_mapped random_RP) = Inr 6
   \<and> \<not> (2::int) ^ (6 + 1) dvd 64"
proof
  show "map_sum id addressBitShift (CreateCache 4 64 32 direct_mapped random_RP) = Inr 6"
    by code_simp
  show "\<not> (2::int) ^ (6 + 1) dvd 64"
    by simp
qed

text \<open>
  C3, amended: whenever \<open>CreateCache\<close> returns a cache for a positive \<open>dataSize\<close>, the
  powers of two that divide \<open>dataSize\<close> are exactly those up to \<open>2 ^ addressBitShift\<close>,
  so \<open>addressBitShift\<close> is the largest \<open>k\<close> with \<open>dataSize\<close> divisible by \<open>2 ^ k\<close>; for a
  \<open>dataSize\<close> of zero or less it is 0.
\<close>

theorem CreateCache_addressBitShift:
  assumes "CreateCache n d t cfg pol = Inr c"
  shows "if d \<le> 0 then addressBitShift c = 0
         else 0 \<le> addressBitShift c \<and> (\<forall>j. (2::int) ^ j dvd d \<longleftrightarrow> j \<le> nat (addressBitShift c))"
proof (cases "d \<le> 0")
  case True
  with CreateCache_shift [OF assms] shift_loop_nonpos [of d] show ?thesis
    by simp
next
  case False
  let ?r = "addressBitShift c"
  from False have "0 < d" by simp
  with shift_loop_valuation [OF CreateCache_shift [OF assms]]
  have r0: "0 \<le> ?r" and dv: "(2::int) ^ nat ?r dvd d" and ndv: "\<not> (2::int) ^ (nat ?r + 1) dvd d"
    by simp_all
  have "(2::int) ^ j dvd d \<longleftrightarrow> j \<le> nat ?r" for j
  proof
    assume j: "(2::int) ^ j dvd d"
    show "j \<le> nat ?r"
    proof (rule ccontr)
      assume "\<not> j \<le> nat ?r"
      then have "nat ?r + 1 \<le> j" by simp
      then have "(2::int) ^ (nat ?r + 1) dvd 2 ^ j"
        by (rule le_imp_power_dvd)
      with j ndv show False
        by (blast intro: dvd_trans)
    qed
  next
    assume "j \<le> nat ?r"
    then have "(2::int) ^ j dvd 2 ^ nat ?r"
      by (rule le_imp_power_dvd)
    with dv show "(2::int) ^ j dvd d"
      by (blast intro: dvd_trans)
  qed
  with False r0 show ?thesis
    by simp
qed

theorem CreateCache_addressBitShift_witness:
  "\<exists>c. CreateCache 4 64 32 direct_mapped random_RP = Inr c \<and> addressBitShift c = 6
       \<and> (\<forall>j. (2::int) ^ j dvd 64 \<longleftrightarrow> j \<le> 6)"
proof -
  have "map_sum id addressBitShift (CreateCache 4 64 32 direct_mapped random_RP) = Inr 6"
    by code_simp
  then obtain c where c: "CreateCache 4 64 32 direct_mapped random_RP = Inr c"
    and s: "addressBitShift c = 6"
    by (cases "CreateCache 4 64 32 direct_mapped random_RP") auto
  from CreateCache_addressBitShift [OF c] s have "\<forall>j. (2::int) ^ j dvd 64 \<longleftrightarrow> j \<le> 6"
    by simp
  with c s show ?thesis
    by blast
qed

section \<open>Lookup\<close>

text \<open>
  C4, as stated for every configuration including the direct-mapped one: lookup would
  return Miss exactly when no way of the set is valid with the tag of the address. In the
  freshly created direct-mapped cache no line is valid, so no way of set 1 matches the
  address 64, and \<open>GetWay\<close> returns way 0, not \<open>-1\<close>.
\<close>

theorem C4_direct_mapped_returns_way_0:
  "CreateCache 4 64 32 direct_mapped lru_RP = Inr direct_fresh
   \<and> set_at direct_fresh 1 = Inr [init_line] \<and> \<not> matches 64 init_line
   \<and> GetWay 64 1 direct_fresh = Inr (0, direct_fresh)"
  by code_simp

text \<open>
  C4, amended. For a set index inside the table whose set holds at least
  \<open>numberOfLinesPerSet\<close> lines: in a direct-mapped cache \<open>GetWay\<close> returns way 0
  whatever the line holds; in every other configuration it returns \<open>-1\<close> and leaves the
  cache alone exactly when no way of the set matches, and otherwise hands the lowest
  matching way to the book-keeping of lines 130 to 136 and returns it. It fails only if
  that book-keeping does: with a cursor for the set that is below \<open>INT_MAX\<close>, and every
  \<open>accessedOrder\<close> of the set below \<open>INT_MAX\<close>, it returns.
\<close>

theorem GetWay_lookup:
  assumes "set_at c s = Inr S" and "numberOfLinesPerSet c \<le> int (length S)"
  shows "(config c = direct_mapped \<longrightarrow> GetWay a s c = Inr (0, c)) \<and>
         (config c \<noteq> direct_mapped \<longrightarrow>
            ((\<forall>w. 0 \<le> w \<and> w < numberOfLinesPerSet c \<longrightarrow> \<not> matches a (S ! nat w)) \<longrightarrow>
               GetWay a s c = Inr (- 1, c)) \<and>
            (\<forall>w. 0 \<le> w \<and> w < numberOfLinesPerSet c \<and> matches a (S ! nat w) \<and>
                 (\<forall>v. 0 \<le> v \<and> v < w \<longrightarrow> \<not> matches a (S ! nat v)) \<longrightarrow>
               GetWay a s c =
                 (case GetWay_touch c s w of Inl e \<Rightarrow> Inl e | Inr c' \<Rightarrow> Inr (w, c'))) \<and>
            (\<forall>r c'. GetWay a s c = Inr (r, c') \<longrightarrow>
               (r = - 1 \<longleftrightarrow>
                  (\<forall>w. 0 \<le> w \<and> w < numberOfLinesPerSet c \<longrightarrow> \<not> matches a (S ! nat w))))) \<and>
         (\<forall>r. cursor_at c s = Inr r \<and> r < INT_MAX \<and> (\<forall>l. l \<in> set S \<longrightarrow> order_of l < INT_MAX) \<longrightarrow>
            (\<exists>w c'. GetWay a s c = Inr (w, c')))"
proof -
  let ?n = "numberOfLinesPerSet c"
  have miss: "GetWay a s c = Inr (- 1, c)"
    if "config c \<noteq> direct_mapped" "\<forall>w. 0 \<le> w \<and> w < ?n \<longrightarrow> \<not> matches a (S ! nat w)"
  proof -
    from that(2) have "\<forall>v. 0 \<le> v \<and> v < ?n \<longrightarrow> \<not> (valid (S ! nat v) \<and> tag (S ! nat v) = a)"
      by (simp add: matches_def)
    from GetWay_loop_miss [OF assms(2) this] that(1) assms(1) show ?thesis
      by (simp add: GetWay_def)
  qed
  have hit: "GetWay a s c = (case GetWay_touch c s w of Inl e \<Rightarrow> Inl e | Inr c' \<Rightarrow> Inr (w, c'))"
    if "config c \<noteq> direct_mapped" "0 \<le> w" "w < ?n" "matches a (S ! nat w)"
      "\<forall>v. 0 \<le> v \<and> v < w \<longrightarrow> \<not> matches a (S ! nat v)" for w
  proof -
    from that(3) assms(2) have "w < int (length S)" by simp
    moreover from that(4) have "valid (S ! nat w) \<and> tag (S ! nat w) = a"
      by (simp add: matches_def)
    moreover from that(5)
    have "\<forall>v. 0 \<le> v \<and> v < w \<longrightarrow> \<not> (valid (S ! nat v) \<and> tag (S ! nat v) = a)"
      by (simp add: matches_def)
    ultimately have "GetWay_loop a s c S 0 =
        (case GetWay_touch c s w of Inl e \<Rightarrow> Inl e | Inr c' \<Rightarrow> Inr (w, c'))"
      using that(2,3) by (intro GetWay_loop_hit) simp_all
    with that(1) assms(1) show ?thesis
      by (simp add: GetWay_def)
  qed
  have iff: "r = - 1 \<longleftrightarrow> (\<forall>w. 0 \<le> w \<and> w < ?n \<longrightarrow> \<not> matches a (S ! nat w))"
    if "config c \<noteq> direct_mapped" "GetWay a s c = Inr (r, c')" for r c'
  proof
    assume r: "r = - 1"
    show "\<forall>w. 0 \<le> w \<and> w < ?n \<longrightarrow> \<not> matches a (S ! nat w)"
    proof (intro allI impI notI)
      fix w assume "0 \<le> w \<and> w < ?n" "matches a (S ! nat w)"
      with first_match [of w ?n a S] obtain u where u: "0 \<le> u" "u < ?n" "matches a (S ! nat u)"
        "\<forall>v. 0 \<le> v \<and> v < u \<longrightarrow> \<not> matches a (S ! nat v)"
        by blast
      from hit [OF that(1) u] that(2) r u(1) show False
        by (simp split: sum.splits)
    qed
  next
    assume "\<forall>w. 0 \<le> w \<and> w < ?n \<longrightarrow> \<not> matches a (S ! nat w)"
    from miss [OF that(1) this] that(2) show "r = - 1" by simp
  qed
  have total: "\<exists>w c'. GetWay a s c = Inr (w, c')"
    if "cursor_at c s = Inr r" "r < INT_MAX" "\<forall>l. l \<in> set S \<longrightarrow> order_of l < INT_MAX" for r
  proof (cases "config c = direct_mapped")
    case True
    with assms(1) show ?thesis by (simp add: GetWay_def)
  next
    case False
    show ?thesis
    proof (cases "\<forall>w. 0 \<le> w \<and> w < ?n \<longrightarrow> \<not> matches a (S ! nat w)")
      case True
      from miss [OF False True] show ?thesis by blast
    next
      case nomiss: False
      then obtain w where "0 \<le> w" "w < ?n" "matches a (S ! nat w)" by blast
      with first_match [of w ?n a S] obtain u where u: "0 \<le> u" "u < ?n" "matches a (S ! nat u)"
        "\<forall>v. 0 \<le> v \<and> v < u \<longrightarrow> \<not> matches a (S ! nat v)"
        by blast
      from u(1,2) assms have l: "line_at c s u = Inr (S ! nat u)"
        by (simp add: line_at_def way_at_def)
      from u(1,2) assms(2) have "S ! nat u \<in> set S" by simp
      with that(3) have "order_of (S ! nat u) < INT_MAX" by blast
      from GetWay_touch_total [OF l that(1,2) this] obtain c' where "GetWay_touch c s u = Inr c'"
        by blast
      with hit [OF False u] show ?thesis by simp
    qed
  qed
  from GetWay_direct_mapped [OF _ assms(1)] miss hit iff total show ?thesis
    by blast
qed

theorem GetWay_lookup_witness:
  "set_at two_way_one 0 = Inr (cacheLine two_way_one ! 0)
   \<and> numberOfLinesPerSet two_way_one \<le> int (length (cacheLine two_way_one ! 0))
   \<and> config two_way_one \<noteq> direct_mapped
   \<and> matches NULL (cacheLine two_way_one ! 0 ! 0)
   \<and> \<not> matches 128 (cacheLine two_way_one ! 0 ! 0) \<and> \<not> matches 128 (cacheLine two_way_one ! 0 ! 1)
   \<and> GetWay 128 0 two_way_one = Inr (- 1, two_way_one)
   \<and> map_sum id fst (GetWay NULL 0 two_way_one) = Inr 0
   \<and> GetWay 64 1 direct_one = Inr (0, direct_one)"
proof -
  have S: "set_at two_way_one 0 = Inr (cacheLine two_way_one ! 0)"
    by (simp add: set_at_def two_way_one_def two_way_fresh_def)
  have n: "numberOfLinesPerSet two_way_one \<le> int (length (cacheLine two_way_one ! 0))"
    by (simp add: two_way_one_def two_way_fresh_def)
  have c: "config two_way_one \<noteq> direct_mapped"
    by (simp add: two_way_one_def two_way_fresh_def)
  have m: "matches NULL (cacheLine two_way_one ! 0 ! 0)"
    "\<not> matches 128 (cacheLine two_way_one ! 0 ! 0)" "\<not> matches 128 (cacheLine two_way_one ! 0 ! 1)"
    by (simp_all add: matches_def two_way_one_def two_way_fresh_def init_line_def NULL_def)
  have no: "\<forall>w. 0 \<le> w \<and> w < numberOfLinesPerSet two_way_one \<longrightarrow>
              \<not> matches 128 (cacheLine two_way_one ! 0 ! nat w)"
  proof (intro allI impI)
    fix w assume "0 \<le> w \<and> w < numberOfLinesPerSet two_way_one"
    then have "w = 0 \<or> w = 1"
      by (auto simp: two_way_one_def two_way_fresh_def)
    with m show "\<not> matches 128 (cacheLine two_way_one ! 0 ! nat w)"
      by auto
  qed
  from GetWay_lookup [OF S n, of 128] c no
  have miss: "GetWay 128 0 two_way_one = Inr (- 1, two_way_one)"
    by blast
  have n0: "0 < numberOfLinesPerSet two_way_one"
    by (simp add: two_way_one_def two_way_fresh_def)
  from GetWay_lookup [OF S n, of NULL] c
  have "\<forall>w. 0 \<le> w \<and> w < numberOfLinesPerSet two_way_one \<and>
            matches NULL (cacheLine two_way_one ! 0 ! nat w) \<and>
            (\<forall>v. 0 \<le> v \<and> v < w \<longrightarrow> \<not> matches NULL (cacheLine two_way_one ! 0 ! nat v)) \<longrightarrow>
          GetWay NULL 0 two_way_one =
            (case GetWay_touch two_way_one 0 w of Inl e \<Rightarrow> Inl e | Inr c' \<Rightarrow> Inr (w, c'))"
    by blast
  from this [rule_format, of 0] m(1) n0
  have "GetWay NULL 0 two_way_one =
          (case GetWay_touch two_way_one 0 0 of Inl e \<Rightarrow> Inl e | Inr c' \<Rightarrow> Inr (0, c'))"
    by simp
  moreover have "\<exists>c'. GetWay_touch two_way_one 0 0 = Inr c'"
    by (simp add: GetWay_touch_def two_way_one_def two_way_fresh_def cursor_at_def incr_def
        INT_MAX_def upd_line_def line_at_def set_at_def way_at_def put_cursor_def)
  ultimately have hit: "map_sum id fst (GetWay NULL 0 two_way_one) = Inr 0"
    by auto
  have S': "set_at direct_one 1 = Inr (cacheLine direct_one ! 1)"
    by (simp add: set_at_def direct_one_def direct_fresh_def)
  have n': "numberOfLinesPerSet direct_one \<le> int (length (cacheLine direct_one ! 1))"
    by (simp add: direct_one_def direct_fresh_def)
  have c': "config direct_one = direct_mapped"
    by (simp add: direct_one_def direct_fresh_def)
  from GetWay_lookup [OF S' n', of 64] c'
  have dm: "GetWay 64 1 direct_one = Inr (0, direct_one)"
    by blast
  from S n c m miss hit dm show ?thesis
    by blast
qed

section \<open>Book-keeping of a hit\<close>

text \<open>
  C7, as stated for every lookup hit. In the direct-mapped cache with the policy
  \<open>lru_RP\<close>, line 0 of set 1 is valid with the tag 64; the lookup of 64 returns that way
  and leaves the cache as it was: the cursor of the set stays 0 and so does the
  \<open>accessedOrder\<close> of the line. \<open>GetWay\<close> returns at line 123, before the book-keeping.
\<close>

theorem C7_direct_mapped_hit_not_stamped:
  "policy direct_one = lru_RP
   \<and> map_sum id (matches 64) (line_at direct_one 1 0) = Inr True
   \<and> GetWay 64 1 direct_one = Inr (0, direct_one)
   \<and> cursor_at direct_one 1 = Inr 0
   \<and> map_sum id order_of (line_at direct_one 1 0) = Inr 0"
  by code_simp

text \<open>
  C7, amended. In a direct-mapped cache \<open>GetWay\<close> returns way 0 and the cache it was
  given, whatever the policy. In every other configuration, when \<open>GetWay\<close> returns a way
  other than \<open>-1\<close>, the line at that way matched the address, and: under
  \<open>lru_RP\<close> or \<open>mru_RP\<close> the cursor of the set is advanced by 1 and the new value is the
  \<open>accessedOrder\<close> of the line; under \<open>lfu_RP\<close> or \<open>mfu_RP\<close> the \<open>accessedOrder\<close> of the
  line is incremented by 1 and no cursor changes; under \<open>random_RP\<close> or \<open>fifo_RP\<close> the
  cache is unchanged. In each case nothing else changes: the cache after the lookup is
  the cache before it with these stores.
\<close>

theorem GetWay_hit_bookkeeping:
  assumes "GetWay a s c = Inr (w, c')"
  shows "(config c = direct_mapped \<longrightarrow> w = 0 \<and> c' = c) \<and>
    (config c \<noteq> direct_mapped \<and> w \<noteq> - 1 \<longrightarrow>
      (\<exists>l. line_at c s w = Inr l \<and> matches a l \<and>
         (policy c = lru_RP \<or> policy c = mru_RP \<longrightarrow>
            (\<exists>r. cursor_at c s = Inr r \<and> cursor_at c' s = Inr (r + 1) \<and>
                 line_at c' s w = Inr (set_order (r + 1) l) \<and>
                 upd_line (put_cursor c s (r + 1)) s w (set_order (r + 1)) = Inr c')) \<and>
         (policy c = lfu_RP \<or> policy c = mfu_RP \<longrightarrow>
            line_at c' s w = Inr (set_order (order_of l + 1) l) \<and>
            replacementLine c' = replacementLine c \<and>
            upd_line c s w (set_order (order_of l + 1)) = Inr c') \<and>
         (policy c = random_RP \<or> policy c = fifo_RP \<longrightarrow> c' = c)))"
proof (intro conjI impI)
  assume "config c = direct_mapped"
  with GetWay_Inr [OF assms] show "w = 0" and "c' = c"
    by auto
next
  assume h: "config c \<noteq> direct_mapped \<and> w \<noteq> - 1"
  let ?thesis = "\<exists>l. line_at c s w = Inr l \<and> matches a l \<and>
         (policy c = lru_RP \<or> policy c = mru_RP \<longrightarrow>
            (\<exists>r. cursor_at c s = Inr r \<and> cursor_at c' s = Inr (r + 1) \<and>
                 line_at c' s w = Inr (set_order (r + 1) l) \<and>
                 upd_line (put_cursor c s (r + 1)) s w (set_order (r + 1)) = Inr c')) \<and>
         (policy c = lfu_RP \<or> policy c = mfu_RP \<longrightarrow>
            line_at c' s w = Inr (set_order (order_of l + 1) l) \<and>
            replacementLine c' = replacementLine c \<and>
            upd_line c s w (set_order (order_of l + 1)) = Inr c') \<and>
         (policy c = random_RP \<or> policy c = fifo_RP \<longrightarrow> c' = c)"
  from GetWay_Inr [OF assms] h
  obtain l where l: "line_at c s w = Inr l" and m: "matches a l"
    and t: "GetWay_touch c s w = Inr c'"
    by blast
  from t show ?thesis
  proof (cases rule: GetWay_touch_cases)
    case (stamp r)
    from l have l': "line_at (put_cursor c s (r + 1)) s w = Inr l" by simp
    from upd_line_same [OF stamp(4) l']
    have "line_at c' s w = Inr (set_order (r + 1) l)" .
    moreover from upd_line_cursor [OF stamp(4), of s] cursor_at_put_cursor [OF stamp(2)]
    have "cursor_at c' s = Inr (r + 1)" by simp
    ultimately show ?thesis
      using l m stamp by auto
  next
    case (count k)
    with l have kl: "k = l" by simp
    from upd_line_same [OF count(4) l] kl
    have "line_at c' s w = Inr (set_order (order_of l + 1) l)" by simp
    moreover from upd_line_fields(4) [OF count(4)]
    have "replacementLine c' = replacementLine c" .
    ultimately show ?thesis
      using l m count kl by auto
  next
    case none
    with l m show ?thesis by auto
  qed
qed

theorem GetWay_hit_bookkeeping_witness:
  "config two_way_one \<noteq> direct_mapped \<and> policy two_way_one = lru_RP
   \<and> cursor_at two_way_one 0 = Inr 1
   \<and> (\<exists>c'. GetWay NULL 0 two_way_one = Inr (0, c') \<and> cursor_at c' 0 = Inr 2
          \<and> map_sum id order_of (line_at c' 0 0) = Inr 2)"
proof -
  have c: "config two_way_one \<noteq> direct_mapped" and p: "policy two_way_one = lru_RP"
    by (simp_all add: two_way_one_def two_way_fresh_def)
  have r: "cursor_at two_way_one 0 = Inr 1"
    by code_simp
  have "map_sum id fst (GetWay NULL 0 two_way_one) = Inr 0"
    by code_simp
  then obtain c' where g: "GetWay NULL 0 two_way_one = Inr (0, c')"
    by (cases "GetWay NULL 0 two_way_one") auto
  from GetWay_hit_bookkeeping [OF g] c p r
  have "cursor_at c' 0 = Inr 2" "map_sum id order_of (line_at c' 0 0) = Inr 2"
    by auto
  with c p r g show ?thesis
    by blast
qed

section \<open>Resolving an address that is cached\<close>

text \<open>
  C1, as stated: on a hit, with no overwrite forced and no host content supplied,
  resolve would call no backing-store function, mutate no line field and change no
  counter. The two-way cache with policy \<open>lru_RP\<close> holds the host address \<open>NULL\<close> in
  way 0 of set 0, so a second resolve of \<open>NULL\<close> is a hit, and \<open>NULL\<close> carries no host
  content. Without \<^verbatim>\<open>CL_MEM_COPY_HOST_PTR\<close> in the flags, \<^verbatim>\<open>clCreateBuffer\<close> is called
  again, the new handle 200 replaces 100 and \<open>memCopies\<close> goes from 1 to 2. With
  \<^verbatim>\<open>CL_MEM_COPY_HOST_PTR\<close> the handle is kept, and the \<open>accessedOrder\<close> of the line goes
  from 1 to 2 by the book-keeping of the lookup. For neither value of the flag does the
  call leave the cache as it was.
\<close>

theorem C1_hit_changes_cache:
  "map_sum id (matches NULL) (line_at two_way_one 0 0) = Inr True
   \<and> map_sum id fst (GetWay NULL 0 two_way_one) = Inr 0
   \<and> map_sum id handle (clCreateCacheBuffer (200, 0) 0 CL_MEM_READ_WRITE NULL two_way_one)
       = Inr (Some 200)
   \<and> map_sum id trace (clCreateCacheBuffer (200, 0) 0 CL_MEM_READ_WRITE NULL two_way_one)
       = Inr [Call_clCreateBuffer CL_MEM_READ_WRITE 64 NULL]
   \<and> memCopies two_way_one = 1
   \<and> map_sum id (memCopies \<circ> cache_after)
         (clCreateCacheBuffer (200, 0) 0 CL_MEM_READ_WRITE NULL two_way_one) = Inr 2
   \<and> map_sum id order_of (line_at two_way_one 0 0) = Inr 1
   \<and> and_then
         (map_sum id cache_after
            (clCreateCacheBuffer (200, 0) 0 (CL_MEM_READ_WRITE OR CL_MEM_COPY_HOST_PTR) NULL
               two_way_one))
         (\<lambda>c. map_sum id order_of (line_at c 0 0)) = Inr 2"
  by code_simp

text \<open>
  C1, amended. When the line that lookup returns is valid with the tag of the address and
  \<^verbatim>\<open>CL_MEM_COPY_HOST_PTR\<close> is set in the flags, \<open>clCreateCacheBuffer\<close> returns the handle
  that the line already held, makes no call, writes no error code, and hands back the cache
  as lookup left it: the valid flag, the tag and the handle of every line and the three
  counters are those of before the call. What lookup may have changed is the
  \<open>accessedOrder\<close> of the hit line and the cursor of its set (C7). Without
  \<^verbatim>\<open>CL_MEM_COPY_HOST_PTR\<close> in the flags the same call creates the buffer again: it calls
  \<^verbatim>\<open>clCreateBuffer\<close>, returns the new handle and adds 1 to \<open>memCopies\<close>.
\<close>

theorem resolve_cached_hit:
  assumes "GetIndex (indexBitMask c) (addressBitShift c) a = Inr st"
    and "GetWay a st c = Inr (w, c1)"
    and "line_at c1 st w = Inr l" and "matches a l"
    and "flags AND CL_MEM_COPY_HOST_PTR = CL_MEM_COPY_HOST_PTR"
  shows "clCreateCacheBuffer bs rnd flags a c =
           Inr \<lparr>handle = deviceData l, errorcode_ret = None, trace = [], cache_after = c1\<rparr>
         \<and> (\<exists>l0. line_at c st w = Inr l0 \<and> deviceData l0 = deviceData l)
         \<and> contents c1 = contents c
         \<and> memCopies c1 = memCopies c \<and> WriteTransfers c1 = WriteTransfers c
         \<and> ReadTransfers c1 = ReadTransfers c
         \<and> (\<forall>flags' r. flags' AND CL_MEM_COPY_HOST_PTR \<noteq> CL_MEM_COPY_HOST_PTR \<and>
               clCreateCacheBuffer bs rnd flags' a c = Inr r \<longrightarrow>
                 trace r = [Call_clCreateBuffer (create_flags flags' a) (dataSize c) a] \<and>
                 handle r = Some (fst bs) \<and> memCopies (cache_after r) = memCopies c + 1)"
proof -
  have again: "trace r = [Call_clCreateBuffer (create_flags flags' a) (dataSize c) a] \<and>
      handle r = Some (fst bs) \<and> memCopies (cache_after r) = memCopies c + 1"
    if f: "flags' AND CL_MEM_COPY_HOST_PTR \<noteq> CL_MEM_COPY_HOST_PTR"
      and r: "clCreateCacheBuffer bs rnd flags' a c = Inr r" for flags' r
    using r
  proof (cases rule: clCreateCacheBuffer_cases)
    case (fast st' w' c1' l')
    with f show ?thesis by simp
  next
    case (slow st' w0 c1' w' c2 tr c3 l')
    from slow(1) assms(1) have st: "st' = st" by simp
    with slow(2) assms(2) have w0: "w0 = w" "c1' = c1" by simp_all
    from GetWay_Inr [OF assms(2)] assms(3) have "w \<noteq> - 1"
      by (auto simp: line_at_minus_one)
    with slow(4) w0 have sel: "w' = w" "c2 = c1" "tr = []" by simp_all
    from slow(5) show ?thesis
    proof (cases rule: populate_Inr)
      case (1 k)
      from 1(2) slow(6) have "l' = k\<lparr>deviceData := Some (fst bs), tag := a, valid := True\<rparr>"
        by simp
      then have "deviceData l' = Some (fst bs)" by simp
      with slow(7) sel 1(4) GetWay_preserves(2,10) [OF assms(2)] show ?thesis
        by simp
    qed
  qed
  from assms(3,4,5) have "cached flags a c1 st w = Inr True"
    by (simp add: cached_True_iff)
  with assms(1,2,3)
  have "clCreateCacheBuffer bs rnd flags a c =
           Inr \<lparr>handle = deviceData l, errorcode_ret = None, trace = [], cache_after = c1\<rparr>"
    by (simp add: clCreateCacheBuffer_def)
  moreover from contents_line_at [OF GetWay_preserves(1) [OF assms(2)] assms(3)]
  have "\<exists>l0. line_at c st w = Inr l0 \<and> deviceData l0 = deviceData l"
    by blast
  moreover have "\<forall>flags' r. flags' AND CL_MEM_COPY_HOST_PTR \<noteq> CL_MEM_COPY_HOST_PTR \<and>
               clCreateCacheBuffer bs rnd flags' a c = Inr r \<longrightarrow>
                 trace r = [Call_clCreateBuffer (create_flags flags' a) (dataSize c) a] \<and>
                 handle r = Some (fst bs) \<and> memCopies (cache_after r) = memCopies c + 1"
    using again by blast
  ultimately show ?thesis
    using GetWay_preserves(1,2,3,4) [OF assms(2)] by blast
qed

theorem resolve_cached_hit_witness:
  "GetIndex (indexBitMask direct_one) (addressBitShift direct_one) 64 = Inr 1
   \<and> GetWay 64 1 direct_one = Inr (0, direct_one)
   \<and> map_sum id (matches 64) (line_at direct_one 1 0) = Inr True
   \<and> clCreateCacheBuffer (200, 0) 0 (CL_MEM_READ_WRITE OR CL_MEM_COPY_HOST_PTR) 64 direct_one
       = Inr \<lparr>handle = Some 100, errorcode_ret = None, trace = [], cache_after = direct_one\<rparr>"
proof -
  let ?l = "\<lparr>valid = True, tag = 64, metaData = \<lparr>nodeId = - 1, accessedOrder = 0\<rparr>,
             deviceData = Some 100\<rparr>"
  have i: "GetIndex (indexBitMask direct_one) (addressBitShift direct_one) 64 = Inr 1"
    by code_simp
  have g: "GetWay 64 1 direct_one = Inr (0, direct_one)"
    by code_simp
  have l: "line_at direct_one 1 0 = Inr ?l"
    by code_simp
  have m: "matches 64 ?l"
    by (simp add: matches_def)
  have f: "(CL_MEM_READ_WRITE OR CL_MEM_COPY_HOST_PTR) AND CL_MEM_COPY_HOST_PTR
             = CL_MEM_COPY_HOST_PTR"
    by (simp add: CL_MEM_READ_WRITE_def CL_MEM_COPY_HOST_PTR_def)
  from resolve_cached_hit [OF i g l m f, of "(200, 0)" 0, THEN conjunct1] i g l m show ?thesis
    by simp
qed

section \<open>A backing store that fails\<close>

text \<open>
  C2, as stated: when the call of the backing store fails, the cache would leave every
  line and every counter as they were. Let \<^verbatim>\<open>clCreateBuffer\<close> fail with the handle
  \<^verbatim>\<open>NULL\<close> and the code \<open>-5\<close> on the fresh direct-mapped cache: the code reaches the
  caller, and still \<open>memCopies\<close> and \<open>WriteTransfers\<close> go from 0 to 1 and the line of set 1
  becomes valid with the tag 64 and the handle \<^verbatim>\<open>NULL\<close>. Let \<^verbatim>\<open>clEnqueueReadBuffer\<close> fail
  with \<open>-5\<close> on the cache that holds 64: \<open>memCopies\<close> goes from 1 to 2, \<open>ReadTransfers\<close>
  from 0 to 1, and the function returns 0.
\<close>

theorem C2_failed_calls_are_counted:
  "memCopies direct_fresh = 0 \<and> contents direct_fresh ! 1 = [(False, NULL, None)]
   \<and> map_sum id errorcode_ret
        (clCreateCacheBuffer (0, - 5) 0 (CL_MEM_READ_WRITE OR CL_MEM_COPY_HOST_PTR) 64 direct_fresh)
       = Inr (Some (- 5))
   \<and> map_sum id (memCopies \<circ> cache_after)
        (clCreateCacheBuffer (0, - 5) 0 (CL_MEM_READ_WRITE OR CL_MEM_COPY_HOST_PTR) 64 direct_fresh)
       = Inr 1
   \<and> map_sum id (WriteTransfers \<circ> cache_after)
        (clCreateCacheBuffer (0, - 5) 0 (CL_MEM_READ_WRITE OR CL_MEM_COPY_HOST_PTR) 64 direct_fresh)
       = Inr 1
   \<and> map_sum id (\<lambda>r. contents (cache_after r) ! 1)
        (clCreateCacheBuffer (0, - 5) 0 (CL_MEM_READ_WRITE OR CL_MEM_COPY_HOST_PTR) 64 direct_fresh)
       = Inr [(True, 64, Some 0)]
   \<and> memCopies direct_one = 1 \<and> ReadTransfers direct_one = 0
   \<and> map_sum id (memCopies \<circ> rcache) (clEnqueueReadCacheBuffer (- 5) 64 direct_one) = Inr 2
   \<and> map_sum id (ReadTransfers \<circ> rcache) (clEnqueueReadCacheBuffer (- 5) 64 direct_one) = Inr 1
   \<and> map_sum id status (clEnqueueReadCacheBuffer (- 5) 64 direct_one) = Inr 0"
  by code_simp

text \<open>
  C2, amended to what the code does with the answer of the backing store, whatever the
  answer is and so also when it reports a failure. A call of \<open>clCreateCacheBuffer\<close> that
  reaches \<^verbatim>\<open>clCreateBuffer\<close> hands its handle and its error code to the caller as they
  came, stores the handle in the line with the tag of the address and the valid flag set,
  and adds 1 to \<open>memCopies\<close>, and to \<open>WriteTransfers\<close> when \<^verbatim>\<open>CL_MEM_COPY_HOST_PTR\<close> is
  set. A call of \<open>clEnqueueReadCacheBuffer\<close> that reaches \<^verbatim>\<open>clEnqueueReadBuffer\<close> adds 1
  to \<open>memCopies\<close> and to \<open>ReadTransfers\<close> and leaves the valid flag, the tag and the handle
  of every line alone.
\<close>

theorem backing_store_answer_not_inspected:
  "(\<forall>r. clCreateCacheBuffer bs rnd flags a c = Inr r \<and> errorcode_ret r \<noteq> None \<longrightarrow>
        errorcode_ret r = Some (snd bs) \<and> handle r = Some (fst bs) \<and>
        memCopies (cache_after r) = memCopies c + 1 \<and>
        WriteTransfers (cache_after r) =
          (if flags AND CL_MEM_COPY_HOST_PTR = CL_MEM_COPY_HOST_PTR
           then WriteTransfers c + 1 else WriteTransfers c) \<and>
        ReadTransfers (cache_after r) = ReadTransfers c \<and>
        (\<exists>st w l. line_at (cache_after r) st w = Inr l \<and> valid l \<and> tag l = a \<and>
                  deviceData l = Some (fst bs))) \<and>
   (\<forall>r. clEnqueueReadCacheBuffer rd a c = Inr r \<and> rtrace r \<noteq> [] \<longrightarrow>
        memCopies (rcache r) = memCopies c + 1 \<and>
        ReadTransfers (rcache r) = ReadTransfers c + 1 \<and>
        WriteTransfers (rcache r) = WriteTransfers c \<and>
        contents (rcache r) = contents c)"
proof (intro conjI allI impI)
  fix r assume "clEnqueueReadCacheBuffer rd a c = Inr r \<and> rtrace r \<noteq> []"
  then have r: "clEnqueueReadCacheBuffer rd a c = Inr r" and t: "rtrace r \<noteq> []"
    by simp_all
  from readBack_counters(6) [OF r] t have s: "status r = 0" by simp
  from readBack_counters(1) [OF r] s show "memCopies (rcache r) = memCopies c + 1" by simp
  from readBack_counters(2) [OF r] s show "ReadTransfers (rcache r) = ReadTransfers c + 1" by simp
  from readBack_counters(3) [OF r] show "WriteTransfers (rcache r) = WriteTransfers c" .
  from readBack_counters(4) [OF r] show "contents (rcache r) = contents c" .
next
  fix r assume "clCreateCacheBuffer bs rnd flags a c = Inr r \<and> errorcode_ret r \<noteq> None"
  then have r: "clCreateCacheBuffer bs rnd flags a c = Inr r" and e: "errorcode_ret r \<noteq> None"
    by simp_all
  from resolve_counters(4) [OF r] e show "errorcode_ret r = Some (snd bs)" by simp
  from resolve_counters(1) [OF r] e show "memCopies (cache_after r) = memCopies c + 1" by simp
  from resolve_counters(2) [OF r] e show "WriteTransfers (cache_after r) =
          (if flags AND CL_MEM_COPY_HOST_PTR = CL_MEM_COPY_HOST_PTR
           then WriteTransfers c + 1 else WriteTransfers c)" by simp
  from resolve_counters(3) [OF r] show "ReadTransfers (cache_after r) = ReadTransfers c" .
  from r have "handle r = Some (fst bs) \<and>
        (\<exists>st w l. line_at (cache_after r) st w = Inr l \<and> valid l \<and> tag l = a \<and>
                  deviceData l = Some (fst bs))"
  proof (cases rule: clCreateCacheBuffer_cases)
    case (fast st w c1 l)
    with e show ?thesis by simp
  next
    case (slow st w c1 w' c2 tr c3 l)
    from slow(5) show ?thesis
    proof (cases rule: populate_Inr)
      case (1 k)
      with slow(6) have "l = k\<lparr>deviceData := Some (fst bs), tag := a, valid := True\<rparr>"
        by simp
      with slow(6,7) have "handle r = Some (fst bs)"
        and "line_at (cache_after r) st w' = Inr l \<and> valid l \<and> tag l = a \<and>
             deviceData l = Some (fst bs)"
        by simp_all
      then show ?thesis by blast
    qed
  qed
  then show "handle r = Some (fst bs)"
    and "\<exists>st w l. line_at (cache_after r) st w = Inr l \<and> valid l \<and> tag l = a \<and>
                  deviceData l = Some (fst bs)"
    by blast+
qed

theorem backing_store_answer_not_inspected_witness:
  "(\<exists>r. clCreateCacheBuffer (0, - 5) 0 (CL_MEM_READ_WRITE OR CL_MEM_COPY_HOST_PTR) 64 direct_fresh
          = Inr r
        \<and> errorcode_ret r = Some (- 5) \<and> handle r = Some 0
        \<and> memCopies (cache_after r) = memCopies direct_fresh + 1)
   \<and> (\<exists>r. clEnqueueReadCacheBuffer (- 5) 64 direct_one = Inr r \<and> rtrace r \<noteq> []
        \<and> memCopies (rcache r) = memCopies direct_one + 1
        \<and> ReadTransfers (rcache r) = ReadTransfers direct_one + 1)"
proof -
  let ?c = "clCreateCacheBuffer (0, - 5) 0 (CL_MEM_READ_WRITE OR CL_MEM_COPY_HOST_PTR) 64
              direct_fresh"
  have "map_sum id errorcode_ret ?c = Inr (Some (- 5))"
    by code_simp
  then obtain r where r: "?c = Inr r" and e: "errorcode_ret r = Some (- 5)"
    by (cases ?c) auto
  from backing_store_answer_not_inspected
    [of "(0, - 5)" 0 "CL_MEM_READ_WRITE OR CL_MEM_COPY_HOST_PTR" 64 direct_fresh]
    r e
  have 1: "handle r = Some 0 \<and> memCopies (cache_after r) = memCopies direct_fresh + 1"
    by simp
  let ?d = "clEnqueueReadCacheBuffer (- 5) 64 direct_one"
  have "map_sum id status ?d = Inr 0"
    by code_simp
  then obtain q where q: "?d = Inr q" and s: "status q = 0"
    by (cases ?d) auto
  from readBack_counters(6) [OF q] s have t: "rtrace q \<noteq> []" by simp
  from backing_store_answer_not_inspected [where rd = "- 5" and a = 64 and c = direct_one] q t
  have 2: "memCopies (rcache q) = memCopies direct_one + 1 \<and>
           ReadTransfers (rcache q) = ReadTransfers direct_one + 1"
    by simp
  from r e 1 q t 2 show ?thesis
    by blast
qed

section \<open>The counters over a sequence of operations\<close>

text \<open>
  C8, as stated: each counter would be incremented by exactly 1 for each qualifying
  operation that succeeds, and so not for one that fails. On the fresh direct-mapped
  cache, let \<^verbatim>\<open>clCreateBuffer\<close> fail with the code \<open>-5\<close> for the address 64 and let
  \<^verbatim>\<open>clEnqueueReadBuffer\<close> then fail with \<open>-5\<close> for the same address: no operation has
  succeeded, and \<open>memCopies\<close> is 2, \<open>WriteTransfers\<close> is 1 and \<open>ReadTransfers\<close> is 1.
  Nor does every sequence of operations have counters to speak of: on the fresh two-way
  cache the read-back of any address, and the resolve of any address with
  \<^verbatim>\<open>CL_MEM_COPY_HOST_PTR\<close> set, end in the access outside the set of C9.
\<close>

theorem C8_failed_operations_are_counted:
  "CreateCache 4 64 32 direct_mapped lru_RP = Inr direct_fresh
   \<and> counters direct_fresh = (0, 0, 0)
   \<and> (- 5 :: cl_int) \<noteq> CL_SUCCESS
   \<and> map_sum id counters
        (run [Resolve (0, - 5) 0 (CL_MEM_READ_WRITE OR CL_MEM_COPY_HOST_PTR) 64,
              ReadBack (- 5) 64] direct_fresh) = Inr (2, 1, 1)
   \<and> CreateCache 4 64 32 two_way lru_RP = Inr two_way_fresh
   \<and> run [ReadBack 0 64] two_way_fresh = Inl OutOfBounds
   \<and> run [Resolve (100, 0) 0 (CL_MEM_READ_WRITE OR CL_MEM_COPY_HOST_PTR) 64] two_way_fresh
       = Inl OutOfBounds"
  by code_simp

text \<open>
  C8, amended. Start from any cache that \<open>CreateCache\<close> returns and run any sequence of
  \<open>clCreateCacheBuffer\<close> and \<open>clEnqueueReadCacheBuffer\<close> calls, with any answers of the
  backing store, as far as it runs without undefined behaviour: then
  \<open>WriteTransfers \<le> memCopies\<close> and \<open>ReadTransfers \<le> memCopies\<close>. Along any such run no
  counter decreases. One call adds exactly 1 to \<open>memCopies\<close> when it calls the backing
  store and 0 otherwise, exactly 1 to \<open>WriteTransfers\<close> when it calls \<^verbatim>\<open>clCreateBuffer\<close>
  with \<^verbatim>\<open>CL_MEM_COPY_HOST_PTR\<close> set in the caller's flags, and exactly 1 to
  \<open>ReadTransfers\<close> when it calls \<^verbatim>\<open>clEnqueueReadBuffer\<close>. What the backing store answers
  plays no part: with any other handle and error code the call makes the same calls and
  leaves the same counters. In a cache that is not direct-mapped no such run moves
  \<open>WriteTransfers\<close> at all, since there a resolve with \<^verbatim>\<open>CL_MEM_COPY_HOST_PTR\<close> set either
  finds the address and creates nothing or reads way \<open>-1\<close>.
\<close>

theorem counters_over_runs:
  "(\<forall>n d t cfg pol c0 xs c.
      CreateCache n d t cfg pol = Inr c0 \<and> run xs c0 = Inr c \<longrightarrow>
        WriteTransfers c \<le> memCopies c \<and> ReadTransfers c \<le> memCopies c \<and>
        0 \<le> WriteTransfers c \<and> 0 \<le> ReadTransfers c) \<and>
   (\<forall>xs c c'. run xs c = Inr c' \<longrightarrow>
        memCopies c \<le> memCopies c' \<and> ReadTransfers c \<le> ReadTransfers c' \<and>
        WriteTransfers c \<le> WriteTransfers c') \<and>
   (\<forall>bs rnd flags a c r. clCreateCacheBuffer bs rnd flags a c = Inr r \<longrightarrow>
        memCopies (cache_after r) =
          memCopies c + (if \<exists>f n b. Call_clCreateBuffer f n b \<in> set (trace r) then 1 else 0) \<and>
        WriteTransfers (cache_after r) =
          WriteTransfers c +
            (if (\<exists>f n b. Call_clCreateBuffer f n b \<in> set (trace r)) \<and>
                flags AND CL_MEM_COPY_HOST_PTR = CL_MEM_COPY_HOST_PTR then 1 else 0) \<and>
        ReadTransfers (cache_after r) = ReadTransfers c) \<and>
   (\<forall>rd a c r. clEnqueueReadCacheBuffer rd a c = Inr r \<longrightarrow>
        memCopies (rcache r) = memCopies c + (if rtrace r \<noteq> [] then 1 else 0) \<and>
        ReadTransfers (rcache r) = ReadTransfers c + (if rtrace r \<noteq> [] then 1 else 0) \<and>
        WriteTransfers (rcache r) = WriteTransfers c) \<and>
   (\<forall>bs bs' rnd flags a c.
        map_sum id (\<lambda>r. (counters (cache_after r), trace r))
          (clCreateCacheBuffer bs rnd flags a c) =
        map_sum id (\<lambda>r. (counters (cache_after r), trace r))
          (clCreateCacheBuffer bs' rnd flags a c)) \<and>
   (\<forall>rd rd' a c. clEnqueueReadCacheBuffer rd a c = clEnqueueReadCacheBuffer rd' a c) \<and>
   (\<forall>n d t cfg pol c0 xs c.
      CreateCache n d t cfg pol = Inr c0 \<and> cfg \<noteq> direct_mapped \<and> run xs c0 = Inr c \<longrightarrow>
        WriteTransfers c = 0)"
proof (intro conjI allI impI)
  fix n d t cfg pol c0 xs c
  assume "CreateCache n d t cfg pol = Inr c0 \<and> run xs c0 = Inr c"
  then have cc: "CreateCache n d t cfg pol = Inr c0" and r: "run xs c0 = Inr c"
    by simp_all
  from CreateCache_counters [OF cc]
  have z: "memCopies c0 = 0 \<and> ReadTransfers c0 = 0 \<and> WriteTransfers c0 = 0" .
  from run_counters [OF r] z
  show "WriteTransfers c \<le> memCopies c" "ReadTransfers c \<le> memCopies c"
    "0 \<le> WriteTransfers c" "0 \<le> ReadTransfers c"
    by linarith+
next
  fix xs c c' assume "run xs c = Inr c'"
  from run_counters [OF this]
  show "memCopies c \<le> memCopies c'" "ReadTransfers c \<le> ReadTransfers c'"
    "WriteTransfers c \<le> WriteTransfers c'"
    by simp_all
next
  fix bs rnd flags a c r assume r: "clCreateCacheBuffer bs rnd flags a c = Inr r"
  from resolve_counters(5) [OF r]
  have e: "(\<exists>f n b. Call_clCreateBuffer f n b \<in> set (trace r)) \<longleftrightarrow> errorcode_ret r \<noteq> None"
    by simp
  from resolve_counters(1) [OF r] e
  show "memCopies (cache_after r) =
          memCopies c + (if \<exists>f n b. Call_clCreateBuffer f n b \<in> set (trace r) then 1 else 0)"
    by simp
  from resolve_counters(2) [OF r] e
  show "WriteTransfers (cache_after r) =
          WriteTransfers c +
            (if (\<exists>f n b. Call_clCreateBuffer f n b \<in> set (trace r)) \<and>
                flags AND CL_MEM_COPY_HOST_PTR = CL_MEM_COPY_HOST_PTR then 1 else 0)"
    by simp
  from resolve_counters(3) [OF r]
  show "ReadTransfers (cache_after r) = ReadTransfers c" .
next
  fix rd a c r assume r: "clEnqueueReadCacheBuffer rd a c = Inr r"
  from readBack_counters(1,6) [OF r]
  show "memCopies (rcache r) = memCopies c + (if rtrace r \<noteq> [] then 1 else 0)"
    by simp
  from readBack_counters(2,6) [OF r]
  show "ReadTransfers (rcache r) = ReadTransfers c + (if rtrace r \<noteq> [] then 1 else 0)"
    by simp
  from readBack_counters(3) [OF r]
  show "WriteTransfers (rcache r) = WriteTransfers c" .
next
  fix bs bs' rnd flags a c
  show "map_sum id (\<lambda>r. (counters (cache_after r), trace r))
          (clCreateCacheBuffer bs rnd flags a c) =
        map_sum id (\<lambda>r. (counters (cache_after r), trace r))
          (clCreateCacheBuffer bs' rnd flags a c)"
    by (rule resolve_answer)
next
  fix rd rd' a c
  show "clEnqueueReadCacheBuffer rd a c = clEnqueueReadCacheBuffer rd' a c"
    by (rule readBack_answer)
next
  fix n d t cfg pol c0 xs c
  assume "CreateCache n d t cfg pol = Inr c0 \<and> cfg \<noteq> direct_mapped \<and> run xs c0 = Inr c"
  then have cc: "CreateCache n d t cfg pol = Inr c0" and nd: "cfg \<noteq> direct_mapped"
    and r: "run xs c0 = Inr c"
    by simp_all
  from CreateCache_fresh(2) [OF cc] nd have "config c0 \<noteq> direct_mapped"
    by simp
  from run_associative [OF this r] CreateCache_counters [OF cc] show "WriteTransfers c = 0"
    by simp
qed

theorem counters_over_runs_witness:
  "CreateCache 4 64 32 direct_mapped lru_RP = Inr direct_fresh
   \<and> (\<exists>c. run [Resolve (100, 0) 0 (CL_MEM_READ_WRITE OR CL_MEM_COPY_HOST_PTR) 0,
                Resolve (0, - 5) 0 (CL_MEM_READ_WRITE OR CL_MEM_COPY_HOST_PTR) 64,
                Resolve (102, 0) 0 CL_MEM_READ_WRITE 128,
                Resolve (103, 0) 0 (CL_MEM_READ_WRITE OR CL_MEM_COPY_HOST_PTR) 256,
                ReadBack (- 5) 256, ReadBack 0 0] direct_fresh = Inr c
          \<and> counters c = (5, 3, 1)
          \<and> WriteTransfers c \<le> memCopies c \<and> ReadTransfers c \<le> memCopies c)
   \<and> CreateCache 4 64 32 two_way lru_RP = Inr two_way_fresh
   \<and> (\<exists>c. run [Resolve (100, 0) 0 CL_MEM_READ_WRITE 64,
                Resolve (101, 0) 0 (CL_MEM_READ_WRITE OR CL_MEM_COPY_HOST_PTR) 64,
                ReadBack 0 64] two_way_fresh = Inr c
          \<and> memCopies c = 2 \<and> ReadTransfers c = 1 \<and> WriteTransfers c = 0)"
proof -
  let ?xs = "[Resolve (100, 0) 0 (CL_MEM_READ_WRITE OR CL_MEM_COPY_HOST_PTR) 0,
                Resolve (0, - 5) 0 (CL_MEM_READ_WRITE OR CL_MEM_COPY_HOST_PTR) 64,
                Resolve (102, 0) 0 CL_MEM_READ_WRITE 128,
                Resolve (103, 0) 0 (CL_MEM_READ_WRITE OR CL_MEM_COPY_HOST_PTR) 256,
                ReadBack (- 5) 256, ReadBack 0 0]"
  let ?ys = "[Resolve (100, 0) 0 CL_MEM_READ_WRITE 64,
                Resolve (101, 0) 0 (CL_MEM_READ_WRITE OR CL_MEM_COPY_HOST_PTR) 64,
                ReadBack 0 64]"
  have f: "CreateCache 4 64 32 direct_mapped lru_RP = Inr direct_fresh"
    by (rule direct_fresh_created)
  have "map_sum id counters (run ?xs direct_fresh) = Inr (5, 3, 1)"
    by code_simp
  then obtain c where c: "run ?xs direct_fresh = Inr c" and v: "counters c = (5, 3, 1)"
    by (cases "run ?xs direct_fresh") auto
  from counters_over_runs [THEN conjunct1, rule_format, OF conjI [OF f c]]
  have le: "WriteTransfers c \<le> memCopies c \<and> ReadTransfers c \<le> memCopies c"
    by simp
  have g: "CreateCache 4 64 32 two_way lru_RP = Inr two_way_fresh"
    by (rule two_way_fresh_created)
  have "map_sum id (\<lambda>c. (memCopies c, ReadTransfers c)) (run ?ys two_way_fresh) = Inr (2, 1)"
    by code_simp
  then obtain k where k: "run ?ys two_way_fresh = Inr k"
    and w: "memCopies k = 2" "ReadTransfers k = 1"
    by (cases "run ?ys two_way_fresh") auto
  have nd: "two_way \<noteq> direct_mapped"
    by simp
  from counters_over_runs [THEN conjunct2, THEN conjunct2, THEN conjunct2, THEN conjunct2,
      THEN conjunct2, THEN conjunct2, rule_format, OF conjI [OF g conjI [OF nd k]]]
  have z: "WriteTransfers k = 0" .
  from f c v le g k w z show ?thesis
    by blast
qed

section \<open>The line read at way -1\<close>

text \<open>
  C9. Whenever \<open>GetWay\<close> returns \<open>-1\<close>, which it does only in a configuration other than
  the direct-mapped one, the line at way \<open>-1\<close> of the indexed set lies outside the set;
  \<open>clCreateCacheBuffer\<close> with \<^verbatim>\<open>CL_MEM_COPY_HOST_PTR\<close> set and \<open>clEnqueueReadCacheBuffer\<close>
  both read that line, in the condition of lines 212 and 244, before any test of the way,
  and so end in the out-of-bounds access. The miss is reachable: in such a configuration
  \<open>GetWay\<close> returns \<open>-1\<close> for every address that no way of its set matches.
\<close>

theorem miss_reads_way_minus_one:
  assumes "GetIndex (indexBitMask c) (addressBitShift c) a = Inr st"
  shows "(\<forall>c1. GetWay a st c = Inr (- 1, c1) \<longrightarrow>
            config c \<noteq> direct_mapped \<and> c1 = c \<and> line_at c1 st (- 1) = Inl OutOfBounds \<and>
            (\<forall>bs rnd flags. flags AND CL_MEM_COPY_HOST_PTR = CL_MEM_COPY_HOST_PTR \<longrightarrow>
               clCreateCacheBuffer bs rnd flags a c = Inl OutOfBounds) \<and>
            (\<forall>rd. clEnqueueReadCacheBuffer rd a c = Inl OutOfBounds)) \<and>
         (\<forall>S. config c \<noteq> direct_mapped \<and> set_at c st = Inr S \<and>
              numberOfLinesPerSet c \<le> int (length S) \<and>
              (\<forall>w. 0 \<le> w \<and> w < numberOfLinesPerSet c \<longrightarrow> \<not> matches a (S ! nat w)) \<longrightarrow>
            GetWay a st c = Inr (- 1, c))"
proof (intro conjI allI impI)
  fix c1 assume g: "GetWay a st c = Inr (- 1, c1)"
  from GetWay_Inr [OF g] show "config c \<noteq> direct_mapped" and "c1 = c"
    by auto
  show "line_at c1 st (- 1) = Inl OutOfBounds"
    by (rule line_at_minus_one)
  show "clEnqueueReadCacheBuffer rd a c = Inl OutOfBounds" for rd
    using assms g by (simp add: clEnqueueReadCacheBuffer_def line_at_minus_one)
  show "clCreateCacheBuffer bs rnd flags a c = Inl OutOfBounds"
    if "flags AND CL_MEM_COPY_HOST_PTR = CL_MEM_COPY_HOST_PTR" for bs rnd flags
    using assms g that by (simp add: clCreateCacheBuffer_def cached_def line_at_minus_one)
next
  fix S
  assume h: "config c \<noteq> direct_mapped \<and> set_at c st = Inr S \<and>
              numberOfLinesPerSet c \<le> int (length S) \<and>
              (\<forall>w. 0 \<le> w \<and> w < numberOfLinesPerSet c \<longrightarrow> \<not> matches a (S ! nat w))"
  then have "\<forall>v. 0 \<le> v \<and> v < numberOfLinesPerSet c \<longrightarrow>
               \<not> (valid (S ! nat v) \<and> tag (S ! nat v) = a)"
    by (simp add: matches_def)
  with h have "GetWay_loop a st c S 0 = Inr (- 1, c)"
    by (intro GetWay_loop_miss) simp_all
  with h show "GetWay a st c = Inr (- 1, c)"
    by (simp add: GetWay_def)
qed

theorem miss_reads_way_minus_one_witness:
  "CreateCache 4 64 32 two_way lru_RP = Inr two_way_fresh
   \<and> GetIndex (indexBitMask two_way_fresh) (addressBitShift two_way_fresh) 64 = Inr 1
   \<and> config two_way_fresh \<noteq> direct_mapped
   \<and> GetWay 64 1 two_way_fresh = Inr (- 1, two_way_fresh)
   \<and> clCreateCacheBuffer (100, 0) 0 (CL_MEM_READ_WRITE OR CL_MEM_COPY_HOST_PTR) 64 two_way_fresh
       = Inl OutOfBounds
   \<and> clEnqueueReadCacheBuffer 0 64 two_way_fresh = Inl OutOfBounds"
proof -
  have i: "GetIndex (indexBitMask two_way_fresh) (addressBitShift two_way_fresh) 64 = Inr 1"
    by code_simp
  have c: "config two_way_fresh \<noteq> direct_mapped"
    by (simp add: two_way_fresh_def)
  have S: "set_at two_way_fresh 1 = Inr [init_line, init_line]"
    by (simp add: set_at_def two_way_fresh_def)
  have n: "numberOfLinesPerSet two_way_fresh \<le> int (length [init_line, init_line])"
    by (simp add: two_way_fresh_def)
  have m: "\<forall>w. 0 \<le> w \<and> w < numberOfLinesPerSet two_way_fresh \<longrightarrow>
             \<not> matches 64 ([init_line, init_line] ! nat w)"
  proof (intro allI impI)
    fix w assume "0 \<le> w \<and> w < numberOfLinesPerSet two_way_fresh"
    then have "w = 0 \<or> w = 1"
      by (auto simp: two_way_fresh_def)
    then show "\<not> matches 64 ([init_line, init_line] ! nat w)"
      by (auto simp: matches_def init_line_def)
  qed
  note t = miss_reads_way_minus_one [OF i]
  from t [THEN conjunct2, rule_format, of "[init_line, init_line]"] c S n m
  have g: "GetWay 64 1 two_way_fresh = Inr (- 1, two_way_fresh)"
    by blast
  have f: "(CL_MEM_READ_WRITE OR CL_MEM_COPY_HOST_PTR) AND CL_MEM_COPY_HOST_PTR
             = CL_MEM_COPY_HOST_PTR"
    by (simp add: CL_MEM_READ_WRITE_def CL_MEM_COPY_HOST_PTR_def)
  from t [THEN conjunct1, rule_format, OF g] f
  have "clCreateCacheBuffer (100, 0) 0 (CL_MEM_READ_WRITE OR CL_MEM_COPY_HOST_PTR) 64
          two_way_fresh = Inl OutOfBounds"
    and "clEnqueueReadCacheBuffer 0 64 two_way_fresh = Inl OutOfBounds"
    by blast+
  with two_way_fresh_created i c g show ?thesis
    by blast
qed

section \<open>The cursor of the first-in-first-out policy\<close>

text \<open>
  C6. Under \<open>fifo_RP\<close>, \<open>SetWay\<close> on a set whose cursor \<open>r\<close> is not negative returns
  \<open>(r + 1) mod numberOfLinesPerSet\<close> and stores it as the new cursor, whatever the
  lines of the set hold, so also when some way is empty; it changes nothing else.
  \<open>GetWay\<close> under \<open>fifo_RP\<close> returns the cache it was given, whether it finds the
  address or not. In every cache reached from a \<open>CreateCache\<close> result with this policy
  (and a positive number of lines per set) the cursors lie from 0 up to, and not
  including, \<open>numberOfLinesPerSet\<close>, so that the condition on \<open>r\<close> holds at every call.
\<close>

theorem fifo_cursor:
  "(\<forall>c rnd s S r.
      policy c = fifo_RP \<and> set_at c s = Inr S \<and> cursor_at c s = Inr r \<and>
      0 \<le> r \<and> r < INT_MAX \<and> 0 < numberOfLinesPerSet c \<longrightarrow>
        SetWay rnd s c =
          Inr ((r + 1) mod numberOfLinesPerSet c,
               put_cursor c s ((r + 1) mod numberOfLinesPerSet c)) \<and>
        cursor_at (put_cursor c s ((r + 1) mod numberOfLinesPerSet c)) s =
          Inr ((r + 1) mod numberOfLinesPerSet c)) \<and>
   (\<forall>c a s w c'. policy c = fifo_RP \<and> GetWay a s c = Inr (w, c') \<longrightarrow> c' = c) \<and>
   (\<forall>n d t cfg xs c0 c s r.
      CreateCache n d t cfg fifo_RP = Inr c0 \<and> 0 < numberOfLinesPerSet c0 \<and>
      run xs c0 = Inr c \<and> cursor_at c s = Inr r \<longrightarrow>
        policy c = fifo_RP \<and> numberOfLinesPerSet c = numberOfLinesPerSet c0 \<and>
        0 \<le> r \<and> r < numberOfLinesPerSet c)"
proof (intro conjI allI impI)
  fix c rnd s S r
  assume h: "policy c = fifo_RP \<and> set_at c s = Inr S \<and> cursor_at c s = Inr r \<and>
      0 \<le> r \<and> r < INT_MAX \<and> 0 < numberOfLinesPerSet c"
  then have "(r + 1) smod numberOfLinesPerSet c = (r + 1) mod numberOfLinesPerSet c"
    by (intro smod_nonneg_eq) simp_all
  with h show "SetWay rnd s c =
          Inr ((r + 1) mod numberOfLinesPerSet c,
               put_cursor c s ((r + 1) mod numberOfLinesPerSet c))"
    by (simp add: SetWay_def incr_def c_rem_def)
  from h show "cursor_at (put_cursor c s ((r + 1) mod numberOfLinesPerSet c)) s =
          Inr ((r + 1) mod numberOfLinesPerSet c)"
    by (intro cursor_at_put_cursor) simp
next
  fix c a s w c'
  assume "policy c = fifo_RP \<and> GetWay a s c = Inr (w, c')"
  then show "c' = c"
    by (intro GetWay_fifo [of c a s w c']) simp_all
next
  fix n d t cfg xs c0 c s r
  assume h: "CreateCache n d t cfg fifo_RP = Inr c0 \<and> 0 < numberOfLinesPerSet c0 \<and>
      run xs c0 = Inr c \<and> cursor_at c s = Inr r"
  then have cc: "CreateCache n d t cfg fifo_RP = Inr c0" and n0: "0 < numberOfLinesPerSet c0"
    and rn: "run xs c0 = Inr c" and r: "cursor_at c s = Inr r"
    by simp_all
  from CreateCache_fresh [OF cc] n0 have "policy c0 = fifo_RP"
    "\<forall>x \<in> set (replacementLine c0). 0 \<le> x \<and> x < numberOfLinesPerSet c0"
    by auto
  from run_fifo_invariant [OF this(1) n0 this(2) rn]
  have inv: "policy c = fifo_RP \<and> numberOfLinesPerSet c = numberOfLinesPerSet c0 \<and>
             (\<forall>x \<in> set (replacementLine c). 0 \<le> x \<and> x < numberOfLinesPerSet c)" .
  then show "policy c = fifo_RP" "numberOfLinesPerSet c = numberOfLinesPerSet c0"
    by simp_all
  from r inv show "0 \<le> r" "r < numberOfLinesPerSet c"
    by (auto simp: cursor_at_def split: if_splits)
qed

theorem fifo_cursor_witness:
  "CreateCache 4 64 32 two_way fifo_RP = Inr two_way_fifo
   \<and> policy two_way_fifo = fifo_RP
   \<and> set_at two_way_fifo 1 = Inr [init_line, init_line] \<and> \<not> valid init_line
   \<and> cursor_at two_way_fifo 1 = Inr 0
   \<and> SetWay 0 1 two_way_fifo = Inr (1, put_cursor two_way_fifo 1 1)
   \<and> cursor_at (put_cursor two_way_fifo 1 1) 1 = Inr 1
   \<and> GetWay 64 1 two_way_fifo = Inr (- 1, two_way_fifo)"
proof -
  have p: "policy two_way_fifo = fifo_RP"
    by (simp add: two_way_fifo_def)
  have S: "set_at two_way_fifo 1 = Inr [init_line, init_line]"
    by (simp add: set_at_def two_way_fifo_def two_way_fresh_def)
  have v: "\<not> valid init_line"
    by (simp add: init_line_def)
  have r: "cursor_at two_way_fifo 1 = Inr 0"
    by (simp add: cursor_at_def two_way_fifo_def two_way_fresh_def)
  have n: "numberOfLinesPerSet two_way_fifo = 2"
    by (simp add: two_way_fifo_def two_way_fresh_def)
  have h: "policy two_way_fifo = fifo_RP \<and> set_at two_way_fifo 1 = Inr [init_line, init_line] \<and>
           cursor_at two_way_fifo 1 = Inr 0 \<and> (0::int) \<le> 0 \<and> 0 < INT_MAX \<and>
           0 < numberOfLinesPerSet two_way_fifo"
    using p S r n by (simp add: INT_MAX_def)
  from fifo_cursor [THEN conjunct1, rule_format, OF h, of 0] n
  have s: "SetWay 0 1 two_way_fifo = Inr (1, put_cursor two_way_fifo 1 1)"
    and q: "cursor_at (put_cursor two_way_fifo 1 1) 1 = Inr 1"
    by simp_all
  have "map_sum id fst (GetWay 64 1 two_way_fifo) = Inr (- 1)"
    by code_simp
  then obtain c' where g: "GetWay 64 1 two_way_fifo = Inr (- 1, c')"
    by (cases "GetWay 64 1 two_way_fifo") auto
  from fifo_cursor [THEN conjunct2, THEN conjunct1, rule_format, OF conjI [OF p g]] g
  have g': "GetWay 64 1 two_way_fifo = Inr (- 1, two_way_fifo)"
    by simp
  from two_way_fifo_created p S v r s q g' show ?thesis
    by blast
qed

section \<open>The direct-mapped cache\<close>



section \<open>Construction never rejects a request\<close>

text \<open>
  C5, as stated: construction would fail with a configuration error when the number of
  lines is not a power of two, when the line size is 0, or when a set has more lines than
  the cache. \<open>CreateCache\<close> returns a cache in all three cases: three direct-mapped
  lines give three sets under the index mask 3; a line size of 0 gives four lines with
  the shift 0; one line in a two-way cache gives no set at all.
\<close>

theorem C5_invalid_requests_return_caches:
  "map_sum id (\<lambda>c. (numberOfSets c, numberOfLinesPerSet c, indexBitMask c, length (cacheLine c)))
     (CreateCache 3 64 32 direct_mapped random_RP) = Inr (3, 1, 3, 3)
   \<and> map_sum id (\<lambda>c. (dataSize c, addressBitShift c, length (cacheLine c)))
       (CreateCache 4 0 32 direct_mapped random_RP) = Inr (0, 0, 4)
   \<and> map_sum id (\<lambda>c. (numberOfSets c, numberOfLinesPerSet c, length (cacheLine c)))
       (CreateCache 1 64 32 two_way random_RP) = Inr (0, 2, 0)"
  by code_simp

text \<open>
  C5, amended. \<open>CreateCache\<close> checks none of its parameters. It returns a cache, laid
  out as the configuration says and with every line in its initial state, for every
  request whose arithmetic is defined in C: at least one line unless the cache is fully
  associative (lines 19, 24 and 29 take the logarithm of the count), a product of line
  count and line size that fits an \<^verbatim>\<open>int\<close> (line 41), and a line size other than
  \<open>2 ^ 30\<close> (line 73 would convert \<open>2 ^ 31\<close> to \<^verbatim>\<open>int\<close>). Whether the count is a power of
  two, whether the size is 0 and whether a set is larger than the cache play no part.
\<close>

theorem CreateCache_returns:
  assumes "cfg = fully_associative \<or> 1 \<le> n" and "n \<le> INT_MAX"
    and "INT_MIN \<le> n * d" and "n * d \<le> INT_MAX"
    and "d \<le> INT_MAX" and "d \<noteq> 2 ^ 30"
  shows "\<exists>c. CreateCache n d t cfg pol = Inr c \<and> config c = cfg \<and> policy c = pol \<and>
             dataSize c = d \<and>
             numberOfLinesPerSet c =
               (case cfg of direct_mapped \<Rightarrow> 1 | two_way \<Rightarrow> 2 | four_way \<Rightarrow> 4
                | fully_associative \<Rightarrow> n) \<and>
             numberOfSets c =
               (case cfg of direct_mapped \<Rightarrow> n | two_way \<Rightarrow> n sdiv 2 | four_way \<Rightarrow> n sdiv 4
                | fully_associative \<Rightarrow> 1) \<and>
             cacheLine c =
               replicate (nat (numberOfSets c)) (replicate (nat (numberOfLinesPerSet c)) init_line)"
proof -
  from shift_loop_returns [OF assms(5,6)] obtain s where s: "shift_loop d 0 = Inr s" ..
  show ?thesis
  proof (cases "cfg = fully_associative")
    case True
    with s assms(3,4) show ?thesis
      by (simp add: CreateCache_def geometry_def)
  next
    case False
    with assms(1) have "1 \<le> n" by simp
    from ceil_log2_bound [OF this assms(2)] obtain l where l: "ceil_log2 n = Inr l" "l \<le> 31"
      by blast
    from l(2) have "l - 1 \<le> 31" "l - 2 \<le> 31" by simp_all
    with l(2) mask_of_returns obtain m0 m1 m2 where
      m: "mask_of l = Inr m0" "mask_of (l - 1) = Inr m1" "mask_of (l - 2) = Inr m2"
      by blast
    from False s l(1) m assms(3,4) show ?thesis
      by (cases cfg) (simp_all add: CreateCache_def geometry_def)
  qed
qed

theorem CreateCache_returns_witness:
  "(\<exists>c. CreateCache 3 64 32 direct_mapped random_RP = Inr c \<and> numberOfSets c = 3)
   \<and> (\<exists>c. CreateCache 4 0 32 direct_mapped random_RP = Inr c \<and> dataSize c = 0)
   \<and> (\<exists>c. CreateCache 1 64 32 two_way random_RP = Inr c \<and> numberOfLinesPerSet c = 2
          \<and> cacheLine c = [])"
proof -
  have "\<exists>c. CreateCache 3 64 32 direct_mapped random_RP = Inr c \<and> numberOfSets c = 3"
    using CreateCache_returns [of direct_mapped 3 64 32 random_RP]
    by (auto simp: INT_MAX_def INT_MIN_def)
  moreover have "\<exists>c. CreateCache 4 0 32 direct_mapped random_RP = Inr c \<and> dataSize c = 0"
    using CreateCache_returns [of direct_mapped 4 0 32 random_RP]
    by (auto simp: INT_MAX_def INT_MIN_def)
  moreover have "\<exists>c. CreateCache 1 64 32 two_way random_RP = Inr c \<and> numberOfLinesPerSet c = 2
          \<and> cacheLine c = []"
    using CreateCache_returns [of two_way 1 64 32 random_RP]
    by (auto simp: INT_MAX_def INT_MIN_def signed_divide_int_def)
  ultimately show ?thesis
    by blast
qed

end
